theory Spec2Isabelle
  imports Main "HOL-Library.Multiset"
begin

section \<open>Shallow embedding of the AutoScheduler allocation core\<close>

text \<open>
  The embedding follows \<^verbatim>\<open>auto-scheduler/script.js\<close> (the single-file ``AutoScheduler
  (PWA)'' logic: \<^verbatim>\<open>sortTasks\<close>, \<^verbatim>\<open>buildSchedule\<close> with its local helpers
  \<^verbatim>\<open>insertBlock\<close> and \<^verbatim>\<open>findGap\<close>, \<^verbatim>\<open>moveBlock\<close>, \<^verbatim>\<open>toggleBlockDone\<close>,
  \<^verbatim>\<open>removeBlock\<close>) and, for the free-interval variant of the allocator, the function
  \<^verbatim>\<open>generateSchedule\<close> of the script with calendar import.

  Minutes, timestamps and durations are JavaScript numbers that only ever hold integers
  here (they come from \<^verbatim>\<open>parseInt\<close>, \<^verbatim>\<open>Date.now()\<close> and rounded form input), so
  they are modelled as \<^typ>\<open>int\<close>. Text fields that the code only classifies (time-of-day
  inputs, the priority and split selectors) are modelled by the classes the code
  distinguishes.
\<close>

subsection \<open>Utilities\<close>

text \<open>
  A time-of-day text field. \<^verbatim>\<open>parseTimeToMin\<close> returns \<^verbatim>\<open>null\<close> for a falsy string and
  for a string whose hour or minute part is not a number, and \<^verbatim>\<open>h * 60 + m\<close> otherwise.
\<close>

datatype hhmm = Empty | Malformed | HHMM int

fun parseTimeToMin :: "hhmm \<Rightarrow> int option" where
  "parseTimeToMin Empty = None"
| "parseTimeToMin Malformed = None"
| "parseTimeToMin (HHMM t) = Some t"

definition clamp :: "int \<Rightarrow> int \<Rightarrow> int \<Rightarrow> int" where
  "clamp v a b = max a (min b v)"

text \<open>JavaScript's \<^verbatim>\<open>%\<close> truncates towards zero; \<^verbatim>\<open>Math.floor(t / 60)\<close> is \<open>t div 60\<close>.\<close>

definition jsRem :: "int \<Rightarrow> int \<Rightarrow> int" where
  "jsRem a b = sgn a * (\<bar>a\<bar> mod \<bar>b\<bar>)"

text \<open>
  \<^verbatim>\<open>new Date(y, m, d, h, mi, 0, 0).getTime()\<close> for the calendar day with ordinal \<open>day\<close>:
  milliseconds, with hour and minute overflow carried as the \<^verbatim>\<open>Date\<close> constructor does
  (local time without daylight-saving shifts).
\<close>

definition dateMs :: "int \<Rightarrow> int \<Rightarrow> int \<Rightarrow> int" where
  "dateMs day h mi = ((day * 24 + h) * 60 + mi) * 60000"

text \<open>
  \<^verbatim>\<open>combineDateTime(yyyy_mm_dd, hhmm)\<close>: the date field is \<open>None\<close> when empty and the
  ordinal of a well-formed calendar date otherwise. The result is the instant of the
  \<^verbatim>\<open>Date\<close> object (\<^verbatim>\<open>null\<close> as \<open>None\<close>).
\<close>

definition combineDateTime :: "int option \<Rightarrow> hhmm \<Rightarrow> int option" where
  "combineDateTime yyyy_mm_dd t_hhmm =
     (case yyyy_mm_dd of
        None \<Rightarrow> None
      | Some base \<Rightarrow>
          if t_hhmm = Empty then Some (dateMs base 23 59)
          else (case parseTimeToMin t_hhmm of
                  None \<Rightarrow> None
                | Some t \<Rightarrow> Some (dateMs base (t div 60) (jsRem t 60))))"

text \<open>
  \<^verbatim>\<open>Array.prototype.sort(cmp)\<close>: a stable sort; \<open>cmp a b > 0\<close> puts \<open>a\<close> after \<open>b\<close>.
  For the consistent comparators of this program the result of a stable sort is
  determined, and is the one of stable insertion.
\<close>

fun insertBy :: "('a \<Rightarrow> 'a \<Rightarrow> int) \<Rightarrow> 'a \<Rightarrow> 'a list \<Rightarrow> 'a list" where
  "insertBy cmp x [] = [x]"
| "insertBy cmp x (y # ys) = (if cmp x y \<le> 0 then x # y # ys else y # insertBy cmp x ys)"

definition jsSort :: "('a \<Rightarrow> 'a \<Rightarrow> int) \<Rightarrow> 'a list \<Rightarrow> 'a list" where
  "jsSort cmp xs = foldr (insertBy cmp) xs []"

text \<open>
  \<^verbatim>\<open>uid()\<close> mixes \<^verbatim>\<open>Math.random()\<close> and \<^verbatim>\<open>Date.now()\<close>. The environment is a
  generator \<open>gen\<close>: the \<open>k\<close>-th call of a run returns \<open>gen k\<close>.
\<close>

type_synonym uidgen = "nat \<Rightarrow> string"

subsection \<open>Data model\<close>

text \<open>
  \<^verbatim>\<open>priorityScore\<close> gives 3 to the label for high, 2 to the label for medium and 1 to
  everything else; \<^verbatim>\<open>canSplit\<close> is false exactly for the label ``not splittable''.
\<close>

datatype priority = High | Medium | Low

datatype splitFlag = SplitOk | SplitNo

datatype strategy = Due | Priority

record task =
  id_t :: string
  title_t :: string
  duration :: int
  priority :: priority
  split_t :: splitFlag
  deadlineDate :: "int option"
  deadlineTime :: hhmm
  createdAt :: int
  done_t :: bool

text \<open>
  The persisted block has the seven fields written by the final \<^verbatim>\<open>map\<close> of
  \<^verbatim>\<open>buildSchedule\<close>; the working list \<^verbatim>\<open>dayBlocks\<close> carries three more.
\<close>

record block =
  id_b :: string
  taskId :: string
  title_b :: string
  startMin :: int
  endMin :: int
  fixed :: bool
  done_b :: bool

record dayBlock = block +
  priority_b :: priority
  split_b :: splitFlag
  deadline_b :: "int option"

record settings =
  date :: string
  dayStart :: hhmm
  dayEnd :: hhmm
  buffer :: int
  strategy :: strategy
  lunch :: "(hhmm \<times> hhmm) option"

record state =
  settings :: settings
  tasks :: "task list"
  scheduleByDate :: "string \<rightharpoonup> block list"

text \<open>UTF-8 bytes of the title of the break block and of the split marker.\<close>

definition lunchTitle :: string where
  "lunchTitle = [CHR 0xE4, CHR 0xBC, CHR 0x91, CHR 0xE6, CHR 0x86, CHR 0xA9]"

definition splitMark :: string where
  "splitMark = [CHR 0xEF, CHR 0xBC, CHR 0x88, CHR 0xE5, CHR 0x88, CHR 0x86,
                CHR 0xE5, CHR 0x89, CHR 0xB2, CHR 0xEF, CHR 0xBC, CHR 0x89]"

subsection \<open>Scheduling\<close>

fun priorityScore :: "priority \<Rightarrow> int" where
  "priorityScore High = 3"
| "priorityScore Medium = 2"
| "priorityScore Low = 1"

text \<open>\<^verbatim>\<open>getDayRange\<close> returns \<^verbatim>\<open>{ startMin, endMin, buffer }\<close>.\<close>

definition getDayRange :: "state \<Rightarrow> int \<times> int \<times> int" where
  "getDayRange st =
     (case parseTimeToMin (dayStart (settings st)) of None \<Rightarrow> 420 | Some v \<Rightarrow> v,
      case parseTimeToMin (dayEnd (settings st)) of None \<Rightarrow> 1380 | Some v \<Rightarrow> v,
      buffer (settings st))"

definition getLunchBlock :: "state \<Rightarrow> (int \<times> int) option" where
  "getLunchBlock st =
     (case lunch (settings st) of
        None \<Rightarrow> None
      | Some (a, b) \<Rightarrow>
          (case (parseTimeToMin a, parseTimeToMin b) of
             (Some s, Some e) \<Rightarrow> if e \<le> s then None else Some (s, e)
           | _ \<Rightarrow> None))"

definition tasksToSchedule :: "state \<Rightarrow> string \<Rightarrow> task list" where
  "tasksToSchedule st dateKey = filter (\<lambda>t. \<not> done_t t) (tasks st)"

text \<open>The sort key \<^verbatim>\<open>dlMs\<close>: the deadline instant, or \<^verbatim>\<open>Number.POSITIVE_INFINITY\<close>.\<close>

datatype dlms = Finite int | Infinity

definition dlMs :: "task \<Rightarrow> dlms" where
  "dlMs t = (case combineDateTime (deadlineDate t) (deadlineTime t) of
               None \<Rightarrow> Infinity | Some ms \<Rightarrow> Finite ms)"

text \<open>
  The sign of \<^verbatim>\<open>a.dlMs - b.dlMs\<close>, which is all the sort reads. The comparators
  evaluate it only behind \<^verbatim>\<open>a.dlMs !== b.dlMs\<close>, so the last case is never reached.
\<close>

fun dlDiff :: "dlms \<Rightarrow> dlms \<Rightarrow> int" where
  "dlDiff (Finite x) (Finite y) = x - y"
| "dlDiff Infinity (Finite y) = 1"
| "dlDiff (Finite x) Infinity = - 1"
| "dlDiff Infinity Infinity = 0"

definition cmpPriority :: "task \<times> dlms \<Rightarrow> task \<times> dlms \<Rightarrow> int" where
  "cmpPriority a b =
     (let ps = priorityScore (priority (fst b)) - priorityScore (priority (fst a)) in
      if ps \<noteq> 0 then ps
      else if snd a \<noteq> snd b then dlDiff (snd a) (snd b)
      else createdAt (fst a) - createdAt (fst b))"

definition cmpDue :: "task \<times> dlms \<Rightarrow> task \<times> dlms \<Rightarrow> int" where
  "cmpDue a b =
     (if snd a \<noteq> snd b then dlDiff (snd a) (snd b)
      else let ps = priorityScore (priority (fst b)) - priorityScore (priority (fst a)) in
        if ps \<noteq> 0 then ps
        else createdAt (fst a) - createdAt (fst b))"

definition sortTasks :: "state \<Rightarrow> task list \<Rightarrow> task list" where
  "sortTasks st arr =
     (let withKey = map (\<lambda>t. (t, dlMs t)) arr in
      if strategy (settings st) = Priority
      then map fst (jsSort cmpPriority withKey)
      else map fst (jsSort cmpDue withKey))"

text \<open>The comparator \<^verbatim>\<open>(a, b) => a.startMin - b.startMin\<close>.\<close>

definition byStart :: "'a block_scheme \<Rightarrow> 'a block_scheme \<Rightarrow> int" where
  "byStart a b = startMin a - startMin b"

definition insertBlock :: "'a block_scheme \<Rightarrow> 'a block_scheme list \<Rightarrow> 'a block_scheme list" where
  "insertBlock blk dayBlocks = jsSort byStart (dayBlocks @ [blk])"

text \<open>The \<^verbatim>\<open>for\<close> loop of \<^verbatim>\<open>findGap\<close> over the sorted blocks, with the cursor \<open>cur\<close>.\<close>

fun scanGap :: "int \<Rightarrow> int \<Rightarrow> int \<Rightarrow> int \<Rightarrow> 'a block_scheme list \<Rightarrow> (int \<times> int) option" where
  "scanGap endM buf minDur cur [] =
     (if cur + minDur \<le> endM then Some (cur, cur + minDur) else None)"
| "scanGap endM buf minDur cur (b # blocks) =
     (if cur + minDur \<le> startMin b then Some (cur, cur + minDur)
      else scanGap endM buf minDur (max cur (endMin b + buf)) blocks)"

definition findGap :: "int \<times> int \<times> int \<Rightarrow> 'a block_scheme list \<Rightarrow> int \<Rightarrow> (int \<times> int) option" where
  "findGap rng dayBlocks dur =
     (case rng of (startM, endM, buf) \<Rightarrow>
        scanGap endM buf dur startM (jsSort byStart dayBlocks))"

text \<open>\<^verbatim>\<open>Math.max(5, Math.round(Number(t.duration) / 5) * 5)\<close> on an integer duration.\<close>

definition roundedDur :: "task \<Rightarrow> int" where
  "roundedDur t = max 5 (((2 * duration t + 5) div 10) * 5)"

definition canSplit :: "task \<Rightarrow> bool" where
  "canSplit t = (split_t t \<noteq> SplitNo)"

definition lunchDayBlock :: "int \<times> int \<Rightarrow> dayBlock" where
  "lunchDayBlock l =
     \<lparr>id_b = ''lunch'', taskId = ''lunch'', title_b = lunchTitle,
      startMin = fst l, endMin = snd l, fixed = True, done_b = False,
      priority_b = Medium, split_b = SplitNo, deadline_b = None\<rparr>"

definition taskBlock :: "string \<Rightarrow> task \<Rightarrow> string \<Rightarrow> int \<times> int \<Rightarrow> dayBlock" where
  "taskBlock newId t ttl gap =
     \<lparr>id_b = newId, taskId = id_t t, title_b = ttl,
      startMin = fst gap, endMin = snd gap, fixed = False, done_b = False,
      priority_b = priority t, split_b = split_t t,
      deadline_b = combineDateTime (deadlineDate t) (deadlineTime t)\<rparr>"

definition chunkSize :: "int \<Rightarrow> int" where
  "chunkSize remaining =
     (if remaining \<ge> 60 then 60 else if remaining \<ge> 45 then 45
      else if remaining \<ge> 30 then 30 else remaining)"

text \<open>
  The \<^verbatim>\<open>while (remaining > 0)\<close> loop of a splittable task. It returns the block list,
  the number of identifiers drawn so far and the value of \<^verbatim>\<open>remaining\<close> at loop exit.
\<close>

function placeChunks ::
  "uidgen \<Rightarrow> int \<times> int \<times> int \<Rightarrow> task \<Rightarrow> int \<Rightarrow> dayBlock list \<Rightarrow> nat \<Rightarrow> int
     \<Rightarrow> dayBlock list \<times> nat \<times> int" where
  "placeChunks gen rng t dur dayBlocks k remaining =
     (if remaining > 0 then
        (let chunk = chunkSize remaining in
         case findGap rng dayBlocks chunk of
           None \<Rightarrow> (dayBlocks, k, remaining)
         | Some gap \<Rightarrow>
             placeChunks gen rng t dur
               (insertBlock
                  (taskBlock (gen k) t (title_t t @ (if dur \<noteq> chunk then splitMark else [])) gap)
                  dayBlocks)
               (Suc k) (remaining - chunk))
      else (dayBlocks, k, remaining))"
  by pat_completeness auto
termination
  by (relation "measure (\<lambda>(gen, rng, t, dur, dayBlocks, k, remaining). nat remaining)")
     (auto simp: chunkSize_def)

declare placeChunks.simps [simp del]

text \<open>
  An entry of \<^verbatim>\<open>unplaced\<close> is the task object itself, or a copy of it with the extra
  field \<^verbatim>\<open>_remaining\<close>.
\<close>

type_synonym unplacedEntry = "task \<times> int option"

text \<open>One iteration of \<^verbatim>\<open>for (const t of tasks)\<close>.\<close>

definition scheduleTask ::
  "uidgen \<Rightarrow> int \<times> int \<times> int \<Rightarrow> dayBlock list \<times> unplacedEntry list \<times> nat \<Rightarrow> task
     \<Rightarrow> dayBlock list \<times> unplacedEntry list \<times> nat" where
  "scheduleTask gen rng acc t =
     (case acc of (dayBlocks, unplaced, k) \<Rightarrow>
        let dur = roundedDur t in
        if \<not> canSplit t then
          (case findGap rng dayBlocks dur of
             None \<Rightarrow> (dayBlocks, unplaced @ [(t, None)], k)
           | Some gap \<Rightarrow>
               (insertBlock (taskBlock (gen k) t (title_t t) gap) dayBlocks, unplaced, Suc k))
        else
          (case placeChunks gen rng t dur dayBlocks k dur of
             (dayBlocks', k', remaining) \<Rightarrow>
               (dayBlocks',
                if remaining > 0 then unplaced @ [(t, Some remaining)] else unplaced,
                k')))"

record buildResult =
  newState :: state
  placed :: "block list"
  unplaced :: "unplacedEntry list"

definition runTasks ::
  "uidgen \<Rightarrow> int \<times> int \<times> int \<Rightarrow> dayBlock list \<Rightarrow> task list
     \<Rightarrow> dayBlock list \<times> unplacedEntry list \<times> nat" where
  "runTasks gen rng dayBlocks0 ts = foldl (scheduleTask gen rng) (dayBlocks0, [], 0) ts"

definition initialDayBlocks :: "state \<Rightarrow> dayBlock list" where
  "initialDayBlocks st = (case getLunchBlock st of None \<Rightarrow> [] | Some l \<Rightarrow> [lunchDayBlock l])"

definition buildSchedule :: "uidgen \<Rightarrow> state \<Rightarrow> string \<Rightarrow> buildResult" where
  "buildSchedule gen st dateKey =
     (let rng = getDayRange st;
          ts = sortTasks st (tasksToSchedule st dateKey)
      in case runTasks gen rng (initialDayBlocks st) ts of
           (dayBlocks, unpl, k) \<Rightarrow>
             let stored = map block.truncate dayBlocks in
             \<lparr>newState = st\<lparr>scheduleByDate := (scheduleByDate st)(dateKey \<mapsto> stored)\<rparr>,
              placed = stored, unplaced = unpl\<rparr>)"

subsection \<open>Manual edits of the stored schedule\<close>

definition getScheduleForDate :: "state \<Rightarrow> string \<Rightarrow> block list" where
  "getScheduleForDate st dateKey =
     jsSort byStart (case scheduleByDate st dateKey of None \<Rightarrow> [] | Some bs \<Rightarrow> bs)"

text \<open>\<^verbatim>\<open>findIndex\<close> (and \<^verbatim>\<open>find\<close>) return the first match; \<open>None\<close> stands for \<open>-1\<close>.\<close>

fun findIndex :: "('a \<Rightarrow> bool) \<Rightarrow> 'a list \<Rightarrow> nat option" where
  "findIndex P [] = None"
| "findIndex P (x # xs) = (if P x then Some 0 else map_option Suc (findIndex P xs))"

definition hasOverlap :: "state \<Rightarrow> string \<Rightarrow> string \<Rightarrow> int \<Rightarrow> int \<Rightarrow> bool" where
  "hasOverlap st dateKey bid s e =
     (let blocks = getScheduleForDate st dateKey in
      list_ex (\<lambda>b. id_b b \<noteq> bid \<and> \<not> (e \<le> startMin b \<or> s \<ge> endMin b)) blocks)"

definition moveBlock :: "state \<Rightarrow> string \<Rightarrow> string \<Rightarrow> int \<Rightarrow> int \<Rightarrow> state" where
  "moveBlock st dateKey bid s e =
     (let blocks = getScheduleForDate st dateKey in
      case findIndex (\<lambda>b. id_b b = bid) blocks of
        None \<Rightarrow> st
      | Some idx \<Rightarrow>
          let b = blocks ! idx in
          if fixed b then st
          else if hasOverlap st dateKey bid s e then st
          else st\<lparr>scheduleByDate := (scheduleByDate st)
                 (dateKey \<mapsto> jsSort byStart (blocks[idx := b\<lparr>startMin := s, endMin := e\<rparr>]))\<rparr>)"

definition toggleBlockDone :: "state \<Rightarrow> string \<Rightarrow> string \<Rightarrow> state" where
  "toggleBlockDone st dateKey bid =
     (let blocks = getScheduleForDate st dateKey in
      case findIndex (\<lambda>x. id_b x = bid) blocks of
        None \<Rightarrow> st
      | Some idx \<Rightarrow>
          let b = (blocks ! idx)\<lparr>done_b := \<not> done_b (blocks ! idx)\<rparr>;
              blocks' = blocks[idx := b];
              st1 = st\<lparr>scheduleByDate := (scheduleByDate st)(dateKey \<mapsto> blocks')\<rparr>
          in
          if taskId b \<noteq> [] \<and> taskId b \<noteq> ''lunch'' then
            (let related = filter (\<lambda>x. taskId x = taskId b) blocks';
                 allDone = (related \<noteq> [] \<and> list_all done_b related)
             in case findIndex (\<lambda>t. id_t t = taskId b) (tasks st) of
                  None \<Rightarrow> st1
                | Some ti \<Rightarrow> st1\<lparr>tasks := (tasks st)[ti := (tasks st ! ti)\<lparr>done_t := allDone\<rparr>]\<rparr>)
          else st1)"

definition removeBlock :: "state \<Rightarrow> string \<Rightarrow> string \<Rightarrow> state" where
  "removeBlock st dateKey bid =
     (let blocks = getScheduleForDate st dateKey in
      case findIndex (\<lambda>x. id_b x = bid) blocks of
        None \<Rightarrow> st
      | Some idx \<Rightarrow>
          if fixed (blocks ! idx) then st
          else st\<lparr>scheduleByDate := (scheduleByDate st)
                 (dateKey \<mapsto> filter (\<lambda>x. id_b x \<noteq> bid) blocks)\<rparr>)"

subsection \<open>The free-interval allocator (\<^verbatim>\<open>generateSchedule\<close>)\<close>

text \<open>
  The script with calendar import keeps a sorted list of free intervals instead of
  scanning blocks. Its
  allocation loop (\<^verbatim>\<open>for (const t of sortedTasks)\<close>) is embedded for any starting list
  of free intervals and any task order. Its tasks carry a title, a duration, the split
  selector, and for imported to-do items the source and list title; its blocks carry no
  reference to their task.
\<close>

record interval =
  start_i :: int
  end_i :: int

datatype kind = KindTask | KindToDo | KindEvent

record gtask =
  title_g :: string
  duration_g :: int
  split_g :: splitFlag
  fromGoogle :: bool
  listTitle :: string

record gblock =
  id_g :: string
  title_gb :: string
  start_g :: int
  end_g :: int
  kind_g :: kind

text \<open>An entry of this script's \<^verbatim>\<open>unplaced\<close> is \<^verbatim>\<open>{ title, remaining }\<close>.\<close>

type_synonym gunplaced = "string \<times> int"

definition pieces :: "interval \<Rightarrow> interval \<Rightarrow> interval list" where
  "pieces busy iv =
     (if end_i busy \<le> start_i iv \<or> start_i busy \<ge> end_i iv then [iv]
      else (if start_i busy > start_i iv then [\<lparr>start_i = start_i iv, end_i = start_i busy\<rparr>] else [])
           @ (if end_i busy < end_i iv then [\<lparr>start_i = end_i busy, end_i = end_i iv\<rparr>] else []))"

definition subtractBusy :: "interval list \<Rightarrow> interval \<Rightarrow> interval list" where
  "subtractBusy free busy =
     jsSort (\<lambda>a b. start_i a - start_i b) (concat (map (pieces busy) free))"

definition blockKind :: "gtask \<Rightarrow> kind" where
  "blockKind t = (if fromGoogle t then KindToDo else KindTask)"

text \<open>The title of a block: the list title in full-width parentheses for imported items.\<close>

definition blockTitle :: "gtask \<Rightarrow> string" where
  "blockTitle t =
     (if fromGoogle t \<and> listTitle t \<noteq> []
      then title_g t @ [CHR 0xEF, CHR 0xBC, CHR 0x88] @ listTitle t @ [CHR 0xEF, CHR 0xBC, CHR 0x89]
      else title_g t)"

definition newBlock :: "string \<Rightarrow> gtask \<Rightarrow> int \<Rightarrow> int \<Rightarrow> gblock" where
  "newBlock newId t blockStart blockEnd =
     \<lparr>id_g = newId, title_gb = blockTitle t, start_g = blockStart, end_g = blockEnd,
      kind_g = blockKind t\<rparr>"

text \<open>
  The loop of a splittable task: \<open>i\<close> is the loop index, reset to the first interval after
  every placement (\<^verbatim>\<open>i = -1\<close> followed by \<^verbatim>\<open>i++\<close>).
\<close>

function splitLoop ::
  "uidgen \<Rightarrow> int \<Rightarrow> gtask \<Rightarrow> interval list \<Rightarrow> nat \<Rightarrow> int \<Rightarrow> gblock list \<Rightarrow> nat
     \<Rightarrow> interval list \<times> int \<times> gblock list \<times> nat" where
  "splitLoop gen bufferMin t freeIntervals i remaining newBlocks k =
     (if i < length freeIntervals \<and> remaining > 0 then
        (let iv = freeIntervals ! i;
             available = end_i iv - start_i iv
         in if available \<le> 0 then splitLoop gen bufferMin t freeIntervals (Suc i) remaining newBlocks k
            else
              (let use = min available remaining;
                   blockStart = start_i iv;
                   blockEnd = start_i iv + use;
                   busy = \<lparr>start_i = blockStart, end_i = blockEnd + bufferMin\<rparr>
               in splitLoop gen bufferMin t (subtractBusy freeIntervals busy) 0 (remaining - use)
                    (newBlocks @ [newBlock (gen k) t blockStart blockEnd]) (Suc k)))
      else (freeIntervals, remaining, newBlocks, k))"
  by pat_completeness auto
termination
  by (relation "measures [\<lambda>(gen, bufferMin, t, freeIntervals, i, remaining, newBlocks, k). nat remaining,
                          \<lambda>(gen, bufferMin, t, freeIntervals, i, remaining, newBlocks, k).
                             length freeIntervals - i]")
     auto

declare splitLoop.simps [simp del]

text \<open>One iteration of the allocation loop, on the free intervals, blocks, unplaced entries
  and the number of identifiers drawn.\<close>

definition allocateTask ::
  "uidgen \<Rightarrow> int \<Rightarrow> interval list \<times> gblock list \<times> gunplaced list \<times> nat \<Rightarrow> gtask
     \<Rightarrow> interval list \<times> gblock list \<times> gunplaced list \<times> nat" where
  "allocateTask gen bufferMin acc t =
     (case acc of (freeIntervals, blocks, unpl, k) \<Rightarrow>
        let remaining = duration_g t in
        if split_g t = SplitNo then
          (case List.find (\<lambda>iv. end_i iv - start_i iv \<ge> remaining) freeIntervals of
             Some iv \<Rightarrow>
               (let blockStart = start_i iv;
                    blockEnd = start_i iv + remaining;
                    busy = \<lparr>start_i = blockStart, end_i = blockEnd + bufferMin\<rparr>
                in (subtractBusy freeIntervals busy,
                    blocks @ [newBlock (gen k) t blockStart blockEnd], unpl, Suc k))
           | None \<Rightarrow> (freeIntervals, blocks, unpl @ [(title_g t, remaining)], k))
        else
          (case splitLoop gen bufferMin t freeIntervals 0 remaining [] k of
             (freeIntervals', remaining', newBlocks, k') \<Rightarrow>
               (freeIntervals', blocks @ newBlocks,
                if remaining' > 0 then unpl @ [(title_g t, remaining')] else unpl, k')))"

definition allocateTasks ::
  "uidgen \<Rightarrow> int \<Rightarrow> interval list \<times> gblock list \<times> gunplaced list \<times> nat \<Rightarrow> gtask list
     \<Rightarrow> interval list \<times> gblock list \<times> gunplaced list \<times> nat" where
  "allocateTasks gen bufferMin acc sortedTasks = foldl (allocateTask gen bufferMin) acc sortedTasks"

section \<open>Notions used to state the properties\<close>

text \<open>
  The cursor of the gap scan before it looks at the \<open>i\<close>-th block of a list, and whether
  a block of \<open>n\<close> minutes fits at that cursor: before the start of the \<open>i\<close>-th block, or,
  past all blocks, before the end of the day.
\<close>

definition cursorAt :: "int \<Rightarrow> int \<Rightarrow> 'a block_scheme list \<Rightarrow> nat \<Rightarrow> int" where
  "cursorAt startM buf blocks i = foldl (\<lambda>cur b. max cur (endMin b + buf)) startM (take i blocks)"

definition fitsAt :: "int \<times> int \<times> int \<Rightarrow> 'a block_scheme list \<Rightarrow> int \<Rightarrow> nat \<Rightarrow> bool" where
  "fitsAt rng blocks n i =
     (case rng of (startM, endM, buf) \<Rightarrow>
        cursorAt startM buf blocks i + n \<le> (if i < length blocks then startMin (blocks ! i) else endM))"

text \<open>
  A block of \<open>n\<close> minutes fits at the cursor before the \<open>i\<close>-th block and ends no later
  than the day: a position of the scan before the end of the day.
\<close>

definition fitsInDay :: "int \<times> int \<times> int \<Rightarrow> 'a block_scheme list \<Rightarrow> int \<Rightarrow> nat \<Rightarrow> bool" where
  "fitsInDay rng blocks n i =
     (case rng of (startM, endM, buf) \<Rightarrow>
        fitsAt rng blocks n i \<and> cursorAt startM buf blocks i + n \<le> endM)"






definition rankCmp :: "state \<Rightarrow> task \<Rightarrow> task \<Rightarrow> int" where
  "rankCmp st a b =
     (if strategy (settings st) = Priority then cmpPriority (a, dlMs a) (b, dlMs b)
      else cmpDue (a, dlMs a) (b, dlMs b))"

text \<open>
  A block lies within the day window; the configured break lies within the day window;
  the configured break starts no later than the day ends; a block that is not fixed lies
  within the day window and a fixed one starts no later than the day ends; a block has
  positive length and, unless it is fixed, does not start before the day.
  \<open>spans\<close> projects a block list to its time ranges.
\<close>

definition withinDay :: "int \<times> int \<times> int \<Rightarrow> 'a block_scheme \<Rightarrow> bool" where
  "withinDay rng b =
     (case rng of (startM, endM, buf) \<Rightarrow>
        startM \<le> startMin b \<and> startMin b < endMin b \<and> endMin b \<le> endM)"

definition lunchWithinDay :: "state \<Rightarrow> bool" where
  "lunchWithinDay st =
     (case getLunchBlock st of
        None \<Rightarrow> True
      | Some l \<Rightarrow> (case getDayRange st of (startM, endM, buf) \<Rightarrow> startM \<le> fst l \<and> snd l \<le> endM))"

definition lunchStartsInDay :: "state \<Rightarrow> bool" where
  "lunchStartsInDay st =
     (case getLunchBlock st of
        None \<Rightarrow> True
      | Some l \<Rightarrow> fst l \<le> fst (snd (getDayRange st)))"

definition taskBlocksWithinDay :: "int \<times> int \<times> int \<Rightarrow> 'a block_scheme \<Rightarrow> bool" where
  "taskBlocksWithinDay rng b =
     (if fixed b then startMin b \<le> fst (snd rng) else withinDay rng b)"

definition wellFormed :: "int \<times> int \<times> int \<Rightarrow> 'a block_scheme \<Rightarrow> bool" where
  "wellFormed rng b = (startMin b < endMin b \<and> (\<not> fixed b \<longrightarrow> fst rng \<le> startMin b))"

definition spans :: "'a block_scheme list \<Rightarrow> (int \<times> int) list" where
  "spans bs = map (\<lambda>b. (startMin b, endMin b)) bs"

text \<open>
  The invariant of the working block list of \<^verbatim>\<open>buildSchedule\<close>: blocks have positive
  length, a block that starts earlier ends before the later one starts, and does so with
  the buffer to spare when the later one is not fixed; a block that is not fixed starts
  at the start of the day or exactly one buffer after the end of some block; starts are
  pairwise different and the list is in start order.
\<close>

definition spaced :: "int \<times> int \<times> int \<Rightarrow> 'a block_scheme list \<Rightarrow> bool" where
  "spaced rng bs =
     (case rng of (startM, endM, buf) \<Rightarrow>
        (\<forall>a\<in>set bs. startMin a < endMin a)
        \<and> (\<forall>a\<in>set bs. \<forall>b\<in>set bs. startMin a < startMin b \<longrightarrow> endMin a \<le> startMin b)
        \<and> (\<forall>a\<in>set bs. \<forall>b\<in>set bs. \<not> fixed b \<and> startMin a < startMin b
               \<longrightarrow> endMin a + buf \<le> startMin b)
        \<and> (\<forall>b\<in>set bs. \<not> fixed b \<longrightarrow>
               startMin b = startM \<or> (\<exists>a\<in>set bs. endMin a + buf = startMin b))
        \<and> distinct (map startMin bs)
        \<and> sorted (map startMin bs))"

text \<open>
  Minutes placed for a task (over the blocks that refer to it), the remainder recorded
  for it in \<^verbatim>\<open>unplaced\<close> (an entry without \<^verbatim>\<open>_remaining\<close> is the task object
  itself, with its whole duration outstanding), a duration on the 5-minute grid as the
  task form stores it, and the total duration of the tasks with a given identifier.
  \<open>glen\<close> is the length of a block of the free-interval allocator.
\<close>

definition blockLen :: "'a block_scheme \<Rightarrow> int" where
  "blockLen b = endMin b - startMin b"

definition placedMinutes :: "string \<Rightarrow> 'a block_scheme list \<Rightarrow> int" where
  "placedMinutes tid bs = sum_list (map blockLen (filter (\<lambda>b. taskId b = tid) bs))"

fun entryRemaining :: "unplacedEntry \<Rightarrow> int" where
  "entryRemaining (t, None) = duration t"
| "entryRemaining (t, Some r) = r"

definition remainderOf :: "string \<Rightarrow> unplacedEntry list \<Rightarrow> int" where
  "remainderOf tid un = sum_list (map entryRemaining (filter (\<lambda>u. id_t (fst u) = tid) un))"

definition normalized :: "task \<Rightarrow> bool" where
  "normalized t = (5 \<le> duration t \<and> duration t mod 5 = 0)"

definition demand :: "string \<Rightarrow> task list \<Rightarrow> int" where
  "demand tid ts = sum_list (map duration (filter (\<lambda>t. id_t t = tid) ts))"

definition glen :: "gblock \<Rightarrow> int" where
  "glen b = end_g b - start_g b"

text \<open>
  The chunk sizes that the loop of a splittable task tries, one after the other, for a
  given number of remaining minutes; the relation between the blocks \<open>new\<close> added by
  that loop, the block list \<open>bs'\<close> and the remaining minutes \<open>r'\<close> at its exit; the
  number of blocks that refer to a task; and the bound on the blocks placed for a task.
\<close>

function chunkSeq :: "int \<Rightarrow> int list" where
  "chunkSeq remaining =
     (if remaining > 0 then chunkSize remaining # chunkSeq (remaining - chunkSize remaining) else [])"
  by pat_completeness auto
termination
  by (relation "measure nat") (auto simp: chunkSize_def)

declare chunkSeq.simps [simp del]

definition chunkTrace ::
  "int \<times> int \<times> int \<Rightarrow> task \<Rightarrow> dayBlock list \<Rightarrow> int \<Rightarrow> dayBlock list \<Rightarrow> int \<Rightarrow> dayBlock list \<Rightarrow> bool" where
  "chunkTrace rng t dayBlocks remaining bs' r' new =
     (mset bs' = mset dayBlocks + mset new
      \<and> map blockLen new = take (length new) (chunkSeq remaining)
      \<and> r' = remaining - sum_list (map blockLen new)
      \<and> (\<forall>b\<in>set new. taskId b = id_t t \<and> \<not> fixed b)
      \<and> (0 < r' \<longrightarrow> findGap rng bs' (chunkSize r') = None)
      \<and> (\<not> 0 < r' \<longrightarrow> length new = length (chunkSeq remaining)))"


definition chunksPlaced :: "string \<Rightarrow> 'a block_scheme list \<Rightarrow> nat" where
  "chunksPlaced tid bs = length (filter (\<lambda>b. taskId b = tid) bs)"

definition chunkBound :: "task \<Rightarrow> nat" where
  "chunkBound t = (if canSplit t then nat ((roundedDur t + 29) div 30) else 1)"

text \<open>
  A block with the identifier drawn by \<^verbatim>\<open>uid()\<close> blanked out; a fixed block keeps its
  identifier, which is not drawn.
\<close>

definition forgetId :: "'a block_scheme \<Rightarrow> 'a block_scheme" where
  "forgetId b = (if fixed b then b else b\<lparr>id_b := []\<rparr>)"

text \<open>
  Two half-open ranges have a minute in common; a candidate range overlaps a block of the
  day other than the block that is moved.
\<close>

definition rangesOverlap :: "int \<Rightarrow> int \<Rightarrow> int \<Rightarrow> int \<Rightarrow> bool" where
  "rangesOverlap s e s' e' = (max s s' < min e e')"

definition overlapsOther :: "block list \<Rightarrow> string \<Rightarrow> int \<Rightarrow> int \<Rightarrow> bool" where
  "overlapsOther blocks bid s e =
     list_ex (\<lambda>b. id_b b \<noteq> bid \<and> rangesOverlap s e (startMin b) (endMin b)) blocks"


text \<open>
  A task with its done flag blanked, to compare two task lists up to done flags; and the
  value that the completion toggle stores in the done flag of the toggled block's task:
  whether, after the flip, every block of the day with that task identifier is done.
\<close>

definition forgetDone :: "task \<Rightarrow> task" where
  "forgetDone t = t\<lparr>done_t := False\<rparr>"

definition taskDoneAfterToggle :: "block list \<Rightarrow> nat \<Rightarrow> bool" where
  "taskDoneAfterToggle blocks idx =
     list_all done_b
       (filter (\<lambda>x. taskId x = taskId (blocks ! idx))
          (blocks[idx := (blocks ! idx)\<lparr>done_b := \<not> done_b (blocks ! idx)\<rparr>]))"
section \<open>Concrete inputs\<close>

text \<open>Settings and tasks on which the properties below are evaluated.\<close>

definition exSettings :: settings where
  "exSettings = \<lparr>date = ''2025-01-10'', dayStart = HHMM 540, dayEnd = HHMM 1020, buffer = 10,
                  strategy = Due, lunch = Some (HHMM 720, HHMM 780)\<rparr>"

definition exTask :: "string \<Rightarrow> int \<Rightarrow> priority \<Rightarrow> splitFlag \<Rightarrow> int option \<Rightarrow> hhmm \<Rightarrow> int \<Rightarrow> task" where
  "exTask i d p sp dd dt c =
     \<lparr>id_t = i, title_t = i, duration = d, priority = p, split_t = sp,
      deadlineDate = dd, deadlineTime = dt, createdAt = c, done_t = False\<rparr>"

definition exA :: task where
  "exA = exTask ''a'' 60 High SplitNo None Empty 1"

definition exB :: task where
  "exB = exTask ''b'' 100 Medium SplitOk (Some 20098) Empty 2"

definition exC :: task where
  "exC = exTask ''c'' 30 Low SplitOk (Some 20098) (HHMM 600) 3"

definition exState :: "settings \<Rightarrow> task list \<Rightarrow> state" where
  "exState se ts = \<lparr>settings = se, tasks = ts, scheduleByDate = Map.empty\<rparr>"

definition exGen :: uidgen where
  "exGen k = (if k = 0 then ''u0'' else if k = 1 then ''u1'' else if k = 2 then ''u2''
              else if k = 3 then ''u3'' else ''u'')"

definition exSt :: state where
  "exSt = exState exSettings [exA, exB, exC]"

text \<open>A day that ends at 10:00 with the break configured for 12:00 to 13:00.\<close>

definition ce5Settings :: settings where
  "ce5Settings = \<lparr>date = ''2025-01-10'', dayStart = HHMM 540, dayEnd = HHMM 600, buffer = 0,
                   strategy = Due, lunch = Some (HHMM 720, HHMM 780)\<rparr>"

definition ce5Task :: task where
  "ce5Task = exTask ''t'' 90 Medium SplitNo None Empty 1"

text \<open>
  A day from 09:00 to 11:00 with buffer 10, no break, and two unsplittable tasks of 60
  minutes; and free intervals of 50 and 60 minutes with a splittable task of 100 minutes.
\<close>

definition ex3Settings :: settings where
  "ex3Settings = \<lparr>date = ''2025-01-10'', dayStart = HHMM 540, dayEnd = HHMM 660, buffer = 10,
                   strategy = Due, lunch = None\<rparr>"

definition ex3St :: state where
  "ex3St = exState ex3Settings
     [exTask ''t1'' 60 Medium SplitNo None Empty 1, exTask ''t2'' 60 Medium SplitNo None Empty 2]"

definition exFree :: "interval list" where
  "exFree = [\<lparr>start_i = 540, end_i = 590\<rparr>, \<lparr>start_i = 650, end_i = 710\<rparr>]"

definition exG :: gtask where
  "exG = \<lparr>title_g = ''g'', duration_g = 100, split_g = SplitOk, fromGoogle = False, listTitle = []\<rparr>"


definition sc4Task :: task where
  "sc4Task = exTask ''s'' 100 Medium SplitOk None Empty 1"

definition ce3Settings :: settings where
  "ce3Settings = \<lparr>date = ''2025-01-10'', dayStart = HHMM 670, dayEnd = HHMM 830, buffer = 0,
                   strategy = Due, lunch = Some (HHMM 720, HHMM 780)\<rparr>"

definition ce10Task :: task where
  "ce10Task = exTask ''s'' 35 Medium SplitOk None Empty 1"

definition ce10Free :: "interval list" where
  "ce10Free = [\<lparr>start_i = 0, end_i = 5\<rparr>, \<lparr>start_i = 10, end_i = 15\<rparr>]"

definition ce10G :: gtask where
  "ce10G = \<lparr>title_g = ''g'', duration_g = 10, split_g = SplitOk, fromGoogle = False, listTitle = []\<rparr>"

text \<open>A second run of the identifier generator.\<close>

definition exGen2 :: uidgen where
  "exGen2 k = ''v''"

text \<open>A stored day with two task blocks and the break.\<close>

definition exBlock :: "string \<Rightarrow> string \<Rightarrow> int \<Rightarrow> int \<Rightarrow> bool \<Rightarrow> block" where
  "exBlock i ti s e fx =
     \<lparr>id_b = i, taskId = ti, title_b = ti, startMin = s, endMin = e, fixed = fx, done_b = False\<rparr>"

definition exDay :: "block list" where
  "exDay = [exBlock ''x'' ''a'' 540 600 False, exBlock ''y'' ''b'' 600 660 False,
            exBlock ''lunch'' ''lunch'' 720 780 True]"

definition exMoveSt :: state where
  "exMoveSt = \<lparr>settings = exSettings, tasks = [exA, exB],
               scheduleByDate = [''2025-01-10'' \<mapsto> exDay]\<rparr>"

text \<open>
  The day from 09:00 to 10:00 with the break at 12:00 to 13:00 and two unsplittable tasks
  of 60 minutes; and its block list after the first task is placed.
\<close>

definition ce2St :: state where
  "ce2St = exState ce5Settings
     [exTask ''t1'' 60 Medium SplitNo None Empty 1, exTask ''t2'' 60 Medium SplitNo None Empty 2]"

definition ce2Blocks :: "dayBlock list" where
  "ce2Blocks = [taskBlock ''u0'' (exTask ''t1'' 60 Medium SplitNo None Empty 1) ''t1'' (540, 600),
                lunchDayBlock (720, 780)]"

section \<open>Properties\<close>

subsection \<open>The stable sort\<close>

lemma mset_insertBy: "mset (insertBy cmp x xs) = add_mset x (mset xs)"
  by (induction xs) auto

lemma mset_jsSort: "mset (jsSort cmp xs) = mset xs"
  by (induction xs) (auto simp: jsSort_def mset_insertBy)

lemma set_insertBy: "set (insertBy cmp x xs) = insert x (set xs)"
  by (induction xs) auto

lemma set_jsSort: "set (jsSort cmp xs) = set xs"
  by (induction xs) (auto simp: jsSort_def set_insertBy)

lemma length_jsSort: "length (jsSort cmp xs) = length xs"
  by (metis mset_jsSort size_mset)

lemma jsSort_Cons: "jsSort cmp (x # xs) = insertBy cmp x (jsSort cmp xs)"
  by (simp add: jsSort_def)

lemma jsSort_Nil: "jsSort cmp [] = []"
  by (simp add: jsSort_def)

lemma sorted_insertBy_byStart:
  "sorted (map startMin xs) \<Longrightarrow> sorted (map startMin (insertBy byStart x xs))"
  by (induction xs) (auto simp: byStart_def set_insertBy)

lemma sorted_jsSort_byStart: "sorted (map startMin (jsSort byStart xs))"
  by (induction xs) (auto simp: jsSort_Cons jsSort_Nil sorted_insertBy_byStart)

lemma insertBy_map:
  "insertBy cmp (g x) (map g ys) = map g (insertBy (\<lambda>a b. cmp (g a) (g b)) x ys)"
  by (induction ys) auto

lemma jsSort_map: "jsSort cmp (map g xs) = map g (jsSort (\<lambda>a b. cmp (g a) (g b)) xs)"
  by (induction xs) (auto simp: jsSort_Cons jsSort_Nil insertBy_map)





lemma jsSort_sorted_id:
  "sorted_wrt (\<lambda>a b. cmp a b \<le> 0) xs \<Longrightarrow> jsSort cmp xs = xs"
proof (induction xs)
  case Nil
  show ?case by (simp add: jsSort_Nil)
next
  case (Cons x xs)
  then have "jsSort cmp xs = xs" by simp
  moreover have "insertBy cmp x xs = x # xs"
    using Cons.prems by (cases xs) auto
  ultimately show ?case by (simp add: jsSort_Cons)
qed

subsection \<open>The task ranking\<close>









lemma sortTasks_jsSort: "sortTasks st ts = jsSort (rankCmp st) ts"
proof -
  have m: "map fst (map (\<lambda>t. (t, dlMs t)) xs) = xs" for xs :: "task list"
    by (simp add: comp_def)
  show ?thesis
  proof (cases "strategy (settings st) = Priority")
    case True
    then have "rankCmp st = (\<lambda>a b. cmpPriority (a, dlMs a) (b, dlMs b))"
      by (simp add: rankCmp_def fun_eq_iff)
    with True m show ?thesis
      by (simp add: sortTasks_def Let_def jsSort_map[where g = "\<lambda>t. (t, dlMs t)"])
  next
    case False
    then have "rankCmp st = (\<lambda>a b. cmpDue (a, dlMs a) (b, dlMs b))"
      by (simp add: rankCmp_def fun_eq_iff)
    with False m show ?thesis
      by (simp add: sortTasks_def Let_def jsSort_map[where g = "\<lambda>t. (t, dlMs t)"])
  qed
qed








lemma mset_sortTasks: "mset (sortTasks st ts) = mset ts"
  by (simp add: sortTasks_jsSort mset_jsSort)



subsection \<open>The allocation loop\<close>

lemma scanGap_sound:
  "sorted (map startMin bs) \<Longrightarrow> scanGap endM buf n c bs = Some (s, e) \<Longrightarrow>
     e = s + n \<and> c \<le> s
     \<and> (\<forall>b\<in>set bs. endMin b + buf \<le> s \<or> e \<le> startMin b)
     \<and> (s = c \<or> (\<exists>a\<in>set bs. endMin a + buf = s))
     \<and> (e \<le> endM \<or> (\<exists>b\<in>set bs. e \<le> startMin b))"
proof (induction bs arbitrary: c)
  case Nil
  then show ?case by (auto split: if_splits)
next
  case (Cons b bs)
  show ?case
  proof (cases "c + n \<le> startMin b")
    case True
    with Cons.prems have "s = c" "e = c + n" by auto
    moreover have "\<forall>b'\<in>set (b # bs). c + n \<le> startMin b'"
      using True Cons.prems(1) by auto
    ultimately show ?thesis by auto
  next
    case False
    let ?c' = "max c (endMin b + buf)"
    from False Cons.prems have sc: "scanGap endM buf n ?c' bs = Some (s, e)" by simp
    from Cons.prems(1) have "sorted (map startMin bs)" by simp
    from Cons.IH[OF this sc]
    have ih: "e = s + n" "?c' \<le> s" "\<forall>b\<in>set bs. endMin b + buf \<le> s \<or> e \<le> startMin b"
      "s = ?c' \<or> (\<exists>a\<in>set bs. endMin a + buf = s)"
      "e \<le> endM \<or> (\<exists>b\<in>set bs. e \<le> startMin b)" by auto
    have 1: "c \<le> s" using ih(2) by simp
    have 2: "endMin b + buf \<le> s" using ih(2) by simp
    have 3: "s = c \<or> (\<exists>a\<in>set (b # bs). endMin a + buf = s)"
      using ih(4) by (auto simp: max_def split: if_splits)
    show ?thesis using ih(1) 1 2 3 ih(3) ih(5) by auto
  qed
qed

lemma findGap_sound:
  assumes "findGap (startM, endM, buf) bs n = Some (s, e)"
  shows "e = s + n" "startM \<le> s"
    "\<forall>b\<in>set bs. endMin b + buf \<le> s \<or> e \<le> startMin b"
    "s = startM \<or> (\<exists>a\<in>set bs. endMin a + buf = s)"
    "e \<le> endM \<or> (\<exists>b\<in>set bs. e \<le> startMin b)"
  using scanGap_sound[OF sorted_jsSort_byStart, of endM buf n startM bs s e] assms
  by (auto simp add: findGap_def set_jsSort)

lemma placeChunks_stop:
  "\<not> 0 < remaining \<Longrightarrow> placeChunks gen rng t dur dayBlocks k remaining = (dayBlocks, k, remaining)"
  by (simp add: placeChunks.simps[of gen rng t dur dayBlocks k remaining])

lemma placeChunks_None:
  "0 < remaining \<Longrightarrow> findGap rng dayBlocks (chunkSize remaining) = None \<Longrightarrow>
     placeChunks gen rng t dur dayBlocks k remaining = (dayBlocks, k, remaining)"
  by (simp add: placeChunks.simps[of gen rng t dur dayBlocks k remaining])

lemma placeChunks_Some:
  "0 < remaining \<Longrightarrow> findGap rng dayBlocks (chunkSize remaining) = Some gap \<Longrightarrow>
     placeChunks gen rng t dur dayBlocks k remaining =
       placeChunks gen rng t dur
         (insertBlock
            (taskBlock (gen k) t
               (title_t t @ (if dur \<noteq> chunkSize remaining then splitMark else [])) gap)
            dayBlocks)
         (Suc k) (remaining - chunkSize remaining)"
  by (simp add: placeChunks.simps[of gen rng t dur dayBlocks k remaining] Let_def)

lemma chunkSize_pos: "0 < remaining \<Longrightarrow> 0 < chunkSize remaining"
  by (simp add: chunkSize_def)

lemma placeChunks_preserves_aux:
  "I dayBlocks \<Longrightarrow>
   (\<forall>bs newId t ttl gap n. I bs \<longrightarrow> 0 < n \<longrightarrow> findGap rng bs n = Some gap
        \<longrightarrow> I (insertBlock (taskBlock newId t ttl gap) bs)) \<Longrightarrow>
   I (fst (placeChunks gen rng t dur dayBlocks k remaining))"
proof (induction gen rng t dur dayBlocks k remaining rule: placeChunks.induct)
  case (1 gen rng t dur dayBlocks k remaining)
  show ?case
  proof (cases "remaining > 0")
    case False
    then show ?thesis using "1.prems"(1) by (simp add: placeChunks_stop)
  next
    case True
    then have pos: "0 < chunkSize remaining" by (rule chunkSize_pos)
    show ?thesis
    proof (cases "findGap rng dayBlocks (chunkSize remaining)")
      case None
      with True "1.prems"(1) show ?thesis by (simp add: placeChunks_None)
    next
      case (Some gap)
      let ?blk = "taskBlock (gen k) t
                    (title_t t @ (if dur \<noteq> chunkSize remaining then splitMark else [])) gap"
      have "I (insertBlock ?blk dayBlocks)"
        using "1.prems" pos Some by blast
      from "1.IH"[OF True refl Some this "1.prems"(2)] show ?thesis
        by (simp add: placeChunks_Some[OF True Some])
    qed
  qed
qed

lemma placeChunks_preserves:
  assumes step: "\<And>bs newId t ttl gap n. I bs \<Longrightarrow> 0 < n \<Longrightarrow> findGap rng bs n = Some gap
                   \<Longrightarrow> I (insertBlock (taskBlock newId t ttl gap) bs)"
  shows "I dayBlocks \<Longrightarrow> I (fst (placeChunks gen rng t dur dayBlocks k remaining))"
  using placeChunks_preserves_aux[of I dayBlocks rng gen t dur k remaining] step by blast

lemma roundedDur_pos: "0 < roundedDur t"
  by (simp add: roundedDur_def)

lemma scheduleTask_preserves:
  assumes step: "\<And>bs newId t ttl gap n. I bs \<Longrightarrow> 0 < n \<Longrightarrow> findGap rng bs n = Some gap
                   \<Longrightarrow> I (insertBlock (taskBlock newId t ttl gap) bs)"
  shows "I (fst acc) \<Longrightarrow> I (fst (scheduleTask gen rng acc t))"
proof -
  assume a: "I (fst acc)"
  obtain bs un k where acc: "acc = (bs, un, k)" by (cases acc) auto
  show ?thesis
  proof (cases "canSplit t")
    case False
    then show ?thesis using a acc step[OF _ roundedDur_pos[of t]]
      by (auto simp: scheduleTask_def Let_def split: option.splits)
  next
    case True
    have "I (fst (placeChunks gen rng t (roundedDur t) bs k (roundedDur t)))"
      using placeChunks_preserves[of I rng bs gen t "roundedDur t" k "roundedDur t"] step a acc by simp
    then show ?thesis using True acc
      by (auto simp: scheduleTask_def Let_def split: prod.splits)
  qed
qed

lemma foldl_scheduleTask_preserves:
  assumes step: "\<And>bs newId t ttl gap n. I bs \<Longrightarrow> 0 < n \<Longrightarrow> findGap rng bs n = Some gap
                   \<Longrightarrow> I (insertBlock (taskBlock newId t ttl gap) bs)"
  shows "I (fst acc) \<Longrightarrow> I (fst (foldl (scheduleTask gen rng) acc ts))"
proof (induction ts arbitrary: acc)
  case Nil
  then show ?case by simp
next
  case (Cons t ts)
  have "I (fst (scheduleTask gen rng acc t))"
    using scheduleTask_preserves[of I rng acc gen t] step Cons.prems by blast
  from Cons.IH[OF this] show ?case by simp
qed

lemma runTasks_preserves:
  assumes step: "\<And>bs newId t ttl gap n. I bs \<Longrightarrow> 0 < n \<Longrightarrow> findGap rng bs n = Some gap
                   \<Longrightarrow> I (insertBlock (taskBlock newId t ttl gap) bs)"
    and init: "I dayBlocks0"
  shows "I (fst (runTasks gen rng dayBlocks0 ts))"
  unfolding runTasks_def
  using foldl_scheduleTask_preserves[of I rng "(dayBlocks0, [], 0)" gen ts] step init by simp

lemma set_insertBlock: "set (insertBlock blk bs) = insert blk (set bs)"
  by (simp add: insertBlock_def set_jsSort)

lemma placed_buildSchedule:
  "placed (buildSchedule gen st dateKey) =
     map block.truncate (fst (runTasks gen (getDayRange st) (initialDayBlocks st)
                               (sortTasks st (tasksToSchedule st dateKey))))"
  by (simp add: buildSchedule_def Let_def split: prod.splits)

lemma getLunchBlock_wf: "getLunchBlock st = Some l \<Longrightarrow> fst l < snd l"
  by (auto simp: getLunchBlock_def split: option.splits prod.splits if_splits)

lemma initialDayBlocks_cases:
  "(getLunchBlock st = None \<and> initialDayBlocks st = [])
   \<or> (\<exists>s e. s < e \<and> getLunchBlock st = Some (s, e)
         \<and> initialDayBlocks st = [lunchDayBlock (s, e)])"
proof (cases "getLunchBlock st")
  case None
  then show ?thesis by (simp add: initialDayBlocks_def)
next
  case (Some l)
  with getLunchBlock_wf[OF Some] show ?thesis
    by (cases l) (simp add: initialDayBlocks_def)
qed

lemma truncate_fields:
  "startMin (block.truncate b) = startMin b" "endMin (block.truncate b) = endMin b"
  "fixed (block.truncate b) = fixed b" "taskId (block.truncate b) = taskId b"
  "id_b (block.truncate b) = id_b b" "title_b (block.truncate b) = title_b b"
  "done_b (block.truncate b) = done_b b"
  by (simp_all add: block.truncate_def)

text \<open>Unfolding rules for evaluating the model on concrete inputs.\<close>

lemmas eval_defs = spans_def buildSchedule_def runTasks_def scheduleTask_def initialDayBlocks_def
  getLunchBlock_def getDayRange_def sortTasks_def tasksToSchedule_def jsSort_def
  exState_def exSettings_def exA_def exB_def exC_def exTask_def canSplit_def roundedDur_def
  findGap_def insertBlock_def byStart_def taskBlock_def lunchDayBlock_def
  block.truncate_def Let_def cmpDue_def cmpPriority_def dlMs_def combineDateTime_def
  dateMs_def jsRem_def chunkSize_def placeChunks.simps exGen_def exSt_def

lemma ex_spans:
  "spans (placed (buildSchedule exGen exSt ''2025-01-10''))
     = [(540, 570), (580, 640), (650, 680), (690, 700), (720, 780), (790, 850)]"
  by (simp add: eval_defs)

subsection \<open>The gap scan\<close>

lemma cursorAt_0: "cursorAt c buf bs 0 = c"
  by (simp add: cursorAt_def)

lemma cursorAt_Suc: "cursorAt c buf (b # bs) (Suc i) = cursorAt (max c (endMin b + buf)) buf bs i"
  by (simp add: cursorAt_def)

lemma fitsAt_0_Cons: "fitsAt (c, endM, buf) (b # bs) n 0 \<longleftrightarrow> c + n \<le> startMin b"
  by (simp add: fitsAt_def cursorAt_0)

lemma fitsAt_0_Nil: "fitsAt (c, endM, buf) [] n 0 \<longleftrightarrow> c + n \<le> endM"
  by (simp add: fitsAt_def cursorAt_0)

lemma fitsAt_Suc:
  "fitsAt (c, endM, buf) (b # bs) n (Suc i) \<longleftrightarrow> fitsAt (max c (endMin b + buf), endM, buf) bs n i"
  by (simp add: fitsAt_def cursorAt_Suc)

lemma all_le_Suc: "(\<forall>i\<le>Suc m. P i) \<longleftrightarrow> P 0 \<and> (\<forall>i\<le>m. P (Suc i))"
  by (metis Suc_le_mono le0 not0_implies_Suc)

lemma scanGap_None:
  "scanGap endM buf n c bs = None \<longleftrightarrow> (\<forall>i\<le>length bs. \<not> fitsAt (c, endM, buf) bs n i)"
proof (induction bs arbitrary: c)
  case Nil
  show ?case by (simp add: fitsAt_0_Nil)
next
  case (Cons b bs)
  show ?case
    by (simp add: all_le_Suc fitsAt_0_Cons fitsAt_Suc Cons.IH)
qed

lemma scanGap_Some:
  "scanGap endM buf n c bs = Some (s, e) \<longleftrightarrow>
     (\<exists>i\<le>length bs. fitsAt (c, endM, buf) bs n i \<and> (\<forall>j<i. \<not> fitsAt (c, endM, buf) bs n j)
        \<and> s = cursorAt c buf bs i \<and> e = s + n)"
proof (induction bs arbitrary: c)
  case Nil
  show ?case by (auto simp: fitsAt_0_Nil cursorAt_0)
next
  case (Cons b bs)
  show ?case
  proof (cases "c + n \<le> startMin b")
    case True
    then have f0: "fitsAt (c, endM, buf) (b # bs) n 0" by (simp add: fitsAt_0_Cons)
    have "scanGap endM buf n c (b # bs) = Some (c, c + n)" using True by simp
    moreover have "(\<exists>i\<le>length (b # bs). fitsAt (c, endM, buf) (b # bs) n i
        \<and> (\<forall>j<i. \<not> fitsAt (c, endM, buf) (b # bs) n j)
        \<and> s = cursorAt c buf (b # bs) i \<and> e = s + n) \<longleftrightarrow> (s = c \<and> e = c + n)"
    proof
      assume "\<exists>i\<le>length (b # bs). fitsAt (c, endM, buf) (b # bs) n i
        \<and> (\<forall>j<i. \<not> fitsAt (c, endM, buf) (b # bs) n j)
        \<and> s = cursorAt c buf (b # bs) i \<and> e = s + n"
      then obtain i where i: "\<forall>j<i. \<not> fitsAt (c, endM, buf) (b # bs) n j"
        "s = cursorAt c buf (b # bs) i" "e = s + n" by blast
      from i(1) f0 have "i = 0" by (cases i) auto
      with i show "s = c \<and> e = c + n" by (simp add: cursorAt_0)
    next
      assume "s = c \<and> e = c + n"
      with f0 show "\<exists>i\<le>length (b # bs). fitsAt (c, endM, buf) (b # bs) n i
        \<and> (\<forall>j<i. \<not> fitsAt (c, endM, buf) (b # bs) n j)
        \<and> s = cursorAt c buf (b # bs) i \<and> e = s + n"
        by (intro exI[of _ 0]) (simp add: cursorAt_0)
    qed
    ultimately show ?thesis by auto
  next
    case False
    then have f0: "\<not> fitsAt (c, endM, buf) (b # bs) n 0" by (simp add: fitsAt_0_Cons)
    let ?c' = "max c (endMin b + buf)"
    have step: "scanGap endM buf n c (b # bs) = scanGap endM buf n ?c' bs" using False by simp
    have "(\<exists>i\<le>length (b # bs). fitsAt (c, endM, buf) (b # bs) n i
        \<and> (\<forall>j<i. \<not> fitsAt (c, endM, buf) (b # bs) n j)
        \<and> s = cursorAt c buf (b # bs) i \<and> e = s + n) \<longleftrightarrow>
       (\<exists>i\<le>length bs. fitsAt (?c', endM, buf) bs n i
        \<and> (\<forall>j<i. \<not> fitsAt (?c', endM, buf) bs n j)
        \<and> s = cursorAt ?c' buf bs i \<and> e = s + n)" (is "?L \<longleftrightarrow> ?R")
    proof
      assume ?L
      then obtain i where i: "i \<le> length (b # bs)" "fitsAt (c, endM, buf) (b # bs) n i"
        "\<forall>j<i. \<not> fitsAt (c, endM, buf) (b # bs) n j"
        "s = cursorAt c buf (b # bs) i" "e = s + n" by blast
      from i(2) f0 obtain k where k: "i = Suc k" by (cases i) auto
      have "\<forall>j<k. \<not> fitsAt (?c', endM, buf) bs n j"
      proof (intro allI impI)
        fix j assume "j < k"
        then have "Suc j < i" using k by simp
        with i(3) have "\<not> fitsAt (c, endM, buf) (b # bs) n (Suc j)" by blast
        then show "\<not> fitsAt (?c', endM, buf) bs n j" by (simp add: fitsAt_Suc)
      qed
      with i k show ?R
        by (intro exI[of _ k]) (simp add: fitsAt_Suc cursorAt_Suc)
    next
      assume ?R
      then obtain k where k: "k \<le> length bs" "fitsAt (?c', endM, buf) bs n k"
        "\<forall>j<k. \<not> fitsAt (?c', endM, buf) bs n j"
        "s = cursorAt ?c' buf bs k" "e = s + n" by blast
      have "\<forall>j<Suc k. \<not> fitsAt (c, endM, buf) (b # bs) n j"
      proof (intro allI impI)
        fix j assume j: "j < Suc k"
        show "\<not> fitsAt (c, endM, buf) (b # bs) n j"
        proof (cases j)
          case 0 with f0 show ?thesis by simp
        next
          case (Suc m)
          with j have "m < k" by simp
          with k(3) Suc show ?thesis by (simp add: fitsAt_Suc)
        qed
      qed
      with k show ?L
        by (intro exI[of _ "Suc k"]) (simp add: fitsAt_Suc cursorAt_Suc)
    qed
    with step Cons.IH[of ?c'] show ?thesis by simp
  qed
qed

text \<open>
  The scan of \<^verbatim>\<open>findGap\<close> in terms of its cursor positions: the blocks are taken in
  start order, the cursor starts at the start of the day and moves to the maximum of
  itself and block end plus buffer past each block; the result is the first position at
  which the size fits before the next block's start (past all blocks: before the end of
  the day), and there is no result exactly when the size fits at none of them.
\<close>

lemma findGap_scan_positions:
  fixes dayBlocks :: "'a block_scheme list"
  shows "(let blocks = jsSort byStart dayBlocks; rng = (startM, endM, buf) in
     sorted (map startMin blocks) \<and> mset blocks = mset dayBlocks
     \<and> (findGap rng dayBlocks n = None \<longleftrightarrow> (\<forall>i\<le>length blocks. \<not> fitsAt rng blocks n i))
     \<and> (\<forall>s e. findGap rng dayBlocks n = Some (s, e) \<longleftrightarrow>
          (\<exists>i\<le>length blocks. fitsAt rng blocks n i \<and> (\<forall>j<i. \<not> fitsAt rng blocks n j)
             \<and> s = cursorAt startM buf blocks i \<and> e = s + n)))"
  unfolding Let_def findGap_def prod.case
  using scanGap_None[of endM buf n startM "jsSort byStart dayBlocks"]
        scanGap_Some[of endM buf n startM "jsSort byStart dayBlocks"]
  by (simp add: sorted_jsSort_byStart mset_jsSort)


lemma findGap_scan_positions_example:
  "findGap (540, 1020, 10) [lunchDayBlock (720, 780)] 200 = Some (790, 990)
   \<and> fitsAt (540, 1020, 10) (jsSort byStart [lunchDayBlock (720, 780)]) 200 1
   \<and> \<not> fitsAt (540, 1020, 10) (jsSort byStart [lunchDayBlock (720, 780)]) 200 0
   \<and> cursorAt 540 10 (jsSort byStart [lunchDayBlock (720, 780)]) 1 = 790
   \<and> findGap (540, 1020, 10) [lunchDayBlock (720, 780)] 300 = None"
  using findGap_scan_positions [of "[lunchDayBlock (720, 780)]" 540 1020 10 200]
        findGap_scan_positions [of "[lunchDayBlock (720, 780)]" 540 1020 10 300]
  by (simp add: findGap_def jsSort_def lunchDayBlock_def fitsAt_def cursorAt_def)

lemma findGap_within_day:
  assumes "\<forall>b\<in>set bs. startMin b \<le> endM" "findGap (startM, endM, buf) bs n = Some (s, e)"
  shows "startM \<le> s \<and> e = s + n \<and> e \<le> endM"
proof -
  note fs = findGap_sound[OF assms(2)]
  from fs(5) have "e \<le> endM"
  proof
    assume "e \<le> endM" then show ?thesis .
  next
    assume "\<exists>b\<in>set bs. e \<le> startMin b"
    then obtain b where "b \<in> set bs" "e \<le> startMin b" by blast
    with assms(1) show ?thesis by force
  qed
  with fs(1,2) show ?thesis by simp
qed

text \<open>
  C2: the code departs from the claim. \<^verbatim>\<open>findGap\<close> compares the cursor with the end of
  the day only past all blocks; its return inside the loop compares with the start of the
  next block alone. Before a block that starts after the end of the day it therefore
  returns a position that ends after the end of the day, where the claim requires no
  result because the size fits at no position before the end of the day. With the day
  from 09:00 to 10:00, buffer 0, a task block at 09:00 to 10:00 and the break at 12:00 to
  13:00, the request for 60 minutes returns 10:00 to 11:00, and \<^verbatim>\<open>buildSchedule\<close>
  places the second task there.
\<close>

theorem findGap_returns_gap_past_day_end:
  "getDayRange ce2St = (540, 600, 0)
   \<and> findGap (540, 600, 0) ce2Blocks 60 = Some (600, 660)
   \<and> jsSort byStart ce2Blocks = ce2Blocks
   \<and> \<not> fitsInDay (540, 600, 0) ce2Blocks 60 0
   \<and> \<not> fitsInDay (540, 600, 0) ce2Blocks 60 1
   \<and> \<not> fitsInDay (540, 600, 0) ce2Blocks 60 2
   \<and> spans (placed (buildSchedule exGen ce2St ''2025-01-10''))
       = [(540, 600), (600, 660), (720, 780)]
   \<and> unplaced (buildSchedule exGen ce2St ''2025-01-10'') = []"
  by (simp add: eval_defs ce2St_def ce2Blocks_def ce5Settings_def fitsInDay_def fitsAt_def
        cursorAt_def)
subsection \<open>Day bounds\<close>

lemma withinDay_step:
  assumes "\<forall>b\<in>set bs. withinDay rng b" "0 < n" "findGap rng bs n = Some gap"
  shows "\<forall>b\<in>set (insertBlock (taskBlock newId t ttl gap) bs). withinDay rng b"
proof -
  obtain startM endM buf where rng: "rng = (startM, endM, buf)" by (cases rng) auto
  obtain s e where gap: "gap = (s, e)" by (cases gap) auto
  note fs = findGap_sound[OF assms(3)[unfolded rng gap]]
  have "e \<le> endM"
  proof -
    from fs(5) show ?thesis
    proof
      assume "e \<le> endM" then show ?thesis .
    next
      assume "\<exists>b\<in>set bs. e \<le> startMin b"
      then obtain b where "b \<in> set bs" "e \<le> startMin b" by blast
      with assms(1) rng show ?thesis by (auto simp: withinDay_def)
    qed
  qed
  with fs(1,2) assms(2) have "withinDay rng (taskBlock newId t ttl gap)"
    by (simp add: withinDay_def rng gap taskBlock_def)
  with assms(1) show ?thesis by (simp add: set_insertBlock)
qed

lemma wellFormed_step:
  assumes "\<forall>b\<in>set bs. wellFormed rng b" "0 < n" "findGap rng bs n = Some gap"
  shows "\<forall>b\<in>set (insertBlock (taskBlock newId t ttl gap) bs). wellFormed rng b"
proof -
  obtain startM endM buf where rng: "rng = (startM, endM, buf)" by (cases rng) auto
  obtain s e where gap: "gap = (s, e)" by (cases gap) auto
  note fs = findGap_sound[OF assms(3)[unfolded rng gap]]
  from fs(1,2) assms(2) have "wellFormed rng (taskBlock newId t ttl gap)"
    by (simp add: wellFormed_def rng gap taskBlock_def)
  with assms(1) show ?thesis by (simp add: set_insertBlock)
qed

lemma withinDay_truncate: "withinDay rng (block.truncate b) = withinDay rng b"
  by (simp add: withinDay_def truncate_fields)

lemma wellFormed_truncate: "wellFormed rng (block.truncate b) = wellFormed rng b"
  by (simp add: wellFormed_def truncate_fields)

lemma taskBlocksWithinDay_step:
  assumes "\<forall>b\<in>set bs. taskBlocksWithinDay rng b" "0 < n" "findGap rng bs n = Some gap"
  shows "\<forall>b\<in>set (insertBlock (taskBlock newId t ttl gap) bs). taskBlocksWithinDay rng b"
proof -
  obtain startM endM buf where rng: "rng = (startM, endM, buf)" by (cases rng) auto
  obtain s e where gap: "gap = (s, e)" by (cases gap) auto
  note fs = findGap_sound[OF assms(3)[unfolded rng gap]]
  have "e \<le> endM"
  proof -
    from fs(5) show ?thesis
    proof
      assume "e \<le> endM" then show ?thesis .
    next
      assume "\<exists>b\<in>set bs. e \<le> startMin b"
      then obtain b where b: "b \<in> set bs" "e \<le> startMin b" by blast
      with assms(1) have "taskBlocksWithinDay rng b" by blast
      then have "startMin b \<le> endM"
        by (cases "fixed b") (simp_all add: taskBlocksWithinDay_def withinDay_def rng)
      with b(2) show ?thesis by simp
    qed
  qed
  with fs(1,2) assms(2) have "taskBlocksWithinDay rng (taskBlock newId t ttl gap)"
    by (simp add: taskBlocksWithinDay_def withinDay_def rng gap taskBlock_def)
  with assms(1) show ?thesis by (simp add: set_insertBlock)
qed

lemma taskBlocksWithinDay_truncate:
  "taskBlocksWithinDay rng (block.truncate b) = taskBlocksWithinDay rng b"
  by (simp add: taskBlocksWithinDay_def withinDay_truncate truncate_fields)

lemma buildSchedule_task_blocks_within_day:
  assumes "lunchStartsInDay st"
  shows "\<forall>b\<in>set (placed (buildSchedule gen st dateKey)). \<not> fixed b \<longrightarrow> withinDay (getDayRange st) b"
proof -
  let ?rng = "getDayRange st"
  let ?ts = "sortTasks st (tasksToSchedule st dateKey)"
  let ?bs = "fst (runTasks gen ?rng (initialDayBlocks st) ?ts)"
  have init: "\<forall>b\<in>set (initialDayBlocks st). taskBlocksWithinDay ?rng b"
    using assms initialDayBlocks_cases[of st]
    by (auto simp: lunchStartsInDay_def taskBlocksWithinDay_def lunchDayBlock_def)
  have "\<forall>b\<in>set ?bs. taskBlocksWithinDay ?rng b"
    by (rule runTasks_preserves[where I = "\<lambda>bs. \<forall>b\<in>set bs. taskBlocksWithinDay ?rng b"])
       (use taskBlocksWithinDay_step init in blast)+
  then have "\<forall>b\<in>set (placed (buildSchedule gen st dateKey)). taskBlocksWithinDay ?rng b"
    by (auto simp: placed_buildSchedule taskBlocksWithinDay_truncate)
  then show ?thesis by (auto simp: taskBlocksWithinDay_def)
qed

text \<open>
  C5 (as amended): every block of a schedule produced by \<^verbatim>\<open>buildSchedule\<close> has
  \<open>start < end\<close>, and every block that is not fixed starts at or after the start of the
  day. When no break is configured, or the configured break starts no later than the day
  ends, every block that is not fixed satisfies \<open>dayStart \<le> start < end \<le> dayEnd\<close>;
  when the configured break lies within the day window, so does every block, the break
  included.
\<close>

theorem buildSchedule_day_bounds:
  "(\<forall>b\<in>set (placed (buildSchedule gen st dateKey)).
      startMin b < endMin b \<and> (\<not> fixed b \<longrightarrow> fst (getDayRange st) \<le> startMin b))
   \<and> (lunchStartsInDay st \<longrightarrow>
        (\<forall>b\<in>set (placed (buildSchedule gen st dateKey)).
            \<not> fixed b \<longrightarrow> withinDay (getDayRange st) b))
   \<and> (lunchWithinDay st \<longrightarrow>
        (\<forall>b\<in>set (placed (buildSchedule gen st dateKey)). withinDay (getDayRange st) b))"
proof -
  let ?rng = "getDayRange st"
  let ?ts = "sortTasks st (tasksToSchedule st dateKey)"
  let ?bs = "fst (runTasks gen ?rng (initialDayBlocks st) ?ts)"
  have init_wf: "\<forall>b\<in>set (initialDayBlocks st). wellFormed ?rng b"
    using initialDayBlocks_cases[of st] by (auto simp: wellFormed_def lunchDayBlock_def)
  have wf: "\<forall>b\<in>set ?bs. wellFormed ?rng b"
    by (rule runTasks_preserves[where I = "\<lambda>bs. \<forall>b\<in>set bs. wellFormed ?rng b"])
       (use wellFormed_step init_wf in blast)+
  have a: "\<forall>b\<in>set (placed (buildSchedule gen st dateKey)).
      startMin b < endMin b \<and> (\<not> fixed b \<longrightarrow> fst (getDayRange st) \<le> startMin b)"
    using wf by (auto simp: placed_buildSchedule wellFormed_def truncate_fields)
  have b: "\<forall>b\<in>set (placed (buildSchedule gen st dateKey)). withinDay ?rng b"
    if lw: "lunchWithinDay st"
  proof -
    have init: "\<forall>b\<in>set (initialDayBlocks st). withinDay ?rng b"
      using lw initialDayBlocks_cases[of st]
      by (auto simp: lunchWithinDay_def withinDay_def lunchDayBlock_def split: prod.splits)
    have "\<forall>b\<in>set ?bs. withinDay ?rng b"
      by (rule runTasks_preserves[where I = "\<lambda>bs. \<forall>b\<in>set bs. withinDay ?rng b"])
         (use withinDay_step init in blast)+
    then show ?thesis by (auto simp: placed_buildSchedule withinDay_truncate)
  qed
  from a b buildSchedule_task_blocks_within_day[of st gen dateKey] show ?thesis by blast
qed

theorem buildSchedule_day_bounds_witness:
  "lunchWithinDay exSt \<and> lunchStartsInDay exSt
   \<and> list_all (withinDay (getDayRange exSt)) (placed (buildSchedule exGen exSt ''2025-01-10''))
   \<and> spans (placed (buildSchedule exGen exSt ''2025-01-10''))
       = [(540, 570), (580, 640), (650, 680), (690, 700), (720, 780), (790, 850)]"
proof -
  have l: "lunchWithinDay exSt" "lunchStartsInDay exSt"
    by (simp_all add: lunchWithinDay_def lunchStartsInDay_def getLunchBlock_def getDayRange_def
          exSt_def exState_def exSettings_def)
  from buildSchedule_day_bounds [of exGen exSt "''2025-01-10''"] l
  show ?thesis by (simp add: list_all_iff ex_spans)
qed

text \<open>
  The claim as stated fails when the break is configured outside the day window: with the
  day ending at 10:00 and the break at 12:00 to 13:00, the break block is stored as
  configured, and a 90 minute task is placed at 09:00 to 10:30, past the end of the day.
\<close>

theorem buildSchedule_day_bounds_counterexample:
  "getDayRange (exState ce5Settings [ce5Task]) = (540, 600, 0)
   \<and> spans (placed (buildSchedule exGen (exState ce5Settings [ce5Task]) ''2025-01-10''))
       = [(540, 630), (720, 780)]
   \<and> \<not> list_all (withinDay (getDayRange (exState ce5Settings [ce5Task])))
          (placed (buildSchedule exGen (exState ce5Settings [ce5Task]) ''2025-01-10''))"
  by (simp add: eval_defs withinDay_def ce5Settings_def ce5Task_def)
subsection \<open>No overlap\<close>

lemma mset_insertBlock: "mset (insertBlock blk bs) = add_mset blk (mset bs)"
  by (simp add: insertBlock_def mset_jsSort)

lemma distinct_starts_insertBlock:
  "distinct (map startMin (insertBlock blk bs))
     \<longleftrightarrow> startMin blk \<notin> startMin ` set bs \<and> distinct (map startMin bs)"
proof -
  have "mset (map startMin (insertBlock blk bs)) = mset (map startMin (blk # bs))"
    by (simp add: mset_insertBlock)
  then have "distinct (map startMin (insertBlock blk bs)) = distinct (map startMin (blk # bs))"
    by (rule mset_eq_imp_distinct_iff)
  then show ?thesis by simp
qed

lemma sorted_insertBlock: "sorted (map startMin (insertBlock blk bs))"
  by (simp add: insertBlock_def sorted_jsSort_byStart)

lemma spaced_step:
  assumes inv: "spaced rng bs" and buf0: "0 \<le> snd (snd rng)" and n: "0 < n"
    and fg: "findGap rng bs n = Some gap"
  shows "spaced rng (insertBlock (taskBlock newId t ttl gap) bs)"
proof -
  obtain startM endM buf where rng: "rng = (startM, endM, buf)" by (cases rng) auto
  obtain s e where gap: "gap = (s, e)" by (cases gap) auto
  let ?N = "taskBlock newId t ttl gap"
  have N: "startMin ?N = s" "endMin ?N = e" "\<not> fixed ?N"
    by (simp_all add: taskBlock_def gap)
  note fs = findGap_sound[OF fg[unfolded rng gap]]
  have buf: "0 \<le> buf" using buf0 rng by simp
  have se: "s < e" using fs(1) n by simp
  from inv rng have
    p0: "\<And>a. a \<in> set bs \<Longrightarrow> startMin a < endMin a" and
    p1: "\<And>a b. a \<in> set bs \<Longrightarrow> b \<in> set bs \<Longrightarrow> startMin a < startMin b \<Longrightarrow> endMin a \<le> startMin b" and
    p2: "\<And>a b. a \<in> set bs \<Longrightarrow> b \<in> set bs \<Longrightarrow> \<not> fixed b \<Longrightarrow> startMin a < startMin b
            \<Longrightarrow> endMin a + buf \<le> startMin b" and
    p3: "\<And>b. b \<in> set bs \<Longrightarrow> \<not> fixed b \<Longrightarrow>
            startMin b = startM \<or> (\<exists>a\<in>set bs. endMin a + buf = startMin b)" and
    p4: "distinct (map startMin bs)"
    by (auto simp: spaced_def)
  have side: "endMin b + buf \<le> s \<or> e \<le> startMin b" if "b \<in> set bs" for b
    using fs(3) that by blast
  have before: "endMin a + buf \<le> s" if "a \<in> set bs" "startMin a < s" for a
    using side[OF that(1)] that(2) se by linarith
  have after: "e \<le> startMin b" if "b \<in> set bs" "s < startMin b" for b
    using side[OF that(1)] that(2) p0[OF that(1)] buf by linarith
  have after_buf: "e + buf \<le> startMin b" if b: "b \<in> set bs" "\<not> fixed b" "s < startMin b" for b
  proof -
    from p3[OF b(1,2)] show ?thesis
    proof
      assume "startMin b = startM"
      with fs(2) b(3) show ?thesis by simp
    next
      assume "\<exists>a\<in>set bs. endMin a + buf = startMin b"
      then obtain c where c: "c \<in> set bs" "endMin c + buf = startMin b" by blast
      from side[OF c(1)] show ?thesis
      proof
        assume "endMin c + buf \<le> s"
        with c(2) b(3) show ?thesis by simp
      next
        assume "e \<le> startMin c"
        with p0[OF c(1)] c(2) show ?thesis by linarith
      qed
    qed
  qed
  have fresh: "s \<notin> startMin ` set bs"
  proof
    assume "s \<in> startMin ` set bs"
    then obtain b where b: "b \<in> set bs" "startMin b = s" by auto
    from side[OF b(1)] p0[OF b(1)] b(2) se buf show False by linarith
  qed
  have q0: "\<forall>a\<in>set (insertBlock ?N bs). startMin a < endMin a"
    using p0 se N by (auto simp: set_insertBlock)
  have q1: "\<forall>a\<in>set (insertBlock ?N bs). \<forall>b\<in>set (insertBlock ?N bs).
              startMin a < startMin b \<longrightarrow> endMin a \<le> startMin b"
  proof (intro ballI impI)
    fix a b assume ab: "a \<in> set (insertBlock ?N bs)" "b \<in> set (insertBlock ?N bs)"
      "startMin a < startMin b"
    consider "a = ?N" "b = ?N" | "a = ?N" "b \<in> set bs" | "a \<in> set bs" "b = ?N"
      | "a \<in> set bs" "b \<in> set bs"
      using ab(1,2) by (auto simp: set_insertBlock)
    then show "endMin a \<le> startMin b"
    proof cases
      case 1 with ab(3) show ?thesis by simp
    next
      case 2 with ab(3) N after[of b] show ?thesis by simp
    next
      case 3 with ab(3) N before[of a] buf show ?thesis by simp
    next
      case 4 with ab(3) p1 show ?thesis by blast
    qed
  qed
  have q2: "\<forall>a\<in>set (insertBlock ?N bs). \<forall>b\<in>set (insertBlock ?N bs).
              \<not> fixed b \<and> startMin a < startMin b \<longrightarrow> endMin a + buf \<le> startMin b"
  proof (intro ballI impI)
    fix a b assume ab: "a \<in> set (insertBlock ?N bs)" "b \<in> set (insertBlock ?N bs)"
      "\<not> fixed b \<and> startMin a < startMin b"
    consider "a = ?N" "b = ?N" | "a = ?N" "b \<in> set bs" | "a \<in> set bs" "b = ?N"
      | "a \<in> set bs" "b \<in> set bs"
      using ab(1,2) by (auto simp: set_insertBlock)
    then show "endMin a + buf \<le> startMin b"
    proof cases
      case 1 with ab(3) show ?thesis by simp
    next
      case 2 with ab(3) N after_buf[of b] show ?thesis by simp
    next
      case 3 with ab(3) N before[of a] show ?thesis by simp
    next
      case 4 with ab(3) p2 show ?thesis by blast
    qed
  qed
  have q3: "\<forall>b\<in>set (insertBlock ?N bs). \<not> fixed b \<longrightarrow>
              startMin b = startM \<or> (\<exists>a\<in>set (insertBlock ?N bs). endMin a + buf = startMin b)"
  proof (intro ballI impI)
    fix b assume b: "b \<in> set (insertBlock ?N bs)" "\<not> fixed b"
    show "startMin b = startM \<or> (\<exists>a\<in>set (insertBlock ?N bs). endMin a + buf = startMin b)"
    proof (cases "b = ?N")
      case True
      with fs(4) N show ?thesis by (auto simp: set_insertBlock)
    next
      case False
      with b have "b \<in> set bs" by (simp add: set_insertBlock)
      from p3[OF this b(2)] show ?thesis by (auto simp: set_insertBlock)
    qed
  qed
  have q4: "distinct (map startMin (insertBlock ?N bs))"
    using fresh p4 N by (simp add: distinct_starts_insertBlock)
  show ?thesis
    unfolding spaced_def rng prod.case
    using q0 q1 q2 q3 q4 sorted_insertBlock by blast
qed


lemma spaced_initial: "spaced (getDayRange st) (initialDayBlocks st)"
  using initialDayBlocks_cases[of st]
  by (auto simp: spaced_def lunchDayBlock_def split: prod.splits)

lemma spaced_runTasks:
  assumes "0 \<le> buffer (settings st)"
  shows "spaced (getDayRange st) (fst (runTasks gen (getDayRange st) (initialDayBlocks st) ts))"
proof (rule runTasks_preserves[where I = "spaced (getDayRange st)"])
  fix bs :: "dayBlock list" and newId t ttl gap n
  assume a: "spaced (getDayRange st) bs" "0 < n" "findGap (getDayRange st) bs n = Some gap"
  have b: "0 \<le> snd (snd (getDayRange st))"
    using assms by (simp add: getDayRange_def)
  show "spaced (getDayRange st) (insertBlock (taskBlock newId t ttl gap) bs)"
    by (rule spaced_step[OF a(1) b a(2) a(3)])
next
  show "spaced (getDayRange st) (initialDayBlocks st)" by (rule spaced_initial)
qed

lemma spaced_nth:
  assumes sp: "spaced (startM, endM, buf) ds" and ij: "i < j" "j < length ds"
  shows "endMin (ds ! i) \<le> startMin (ds ! j)"
    and "\<not> fixed (ds ! j) \<Longrightarrow> endMin (ds ! i) + buf \<le> startMin (ds ! j)"
proof -
  from sp have srt: "sorted (map startMin ds)" and dst: "distinct (map startMin ds)"
    by (auto simp: spaced_def)
  have i: "i < length ds" using ij by simp
  have "startMin (ds ! i) \<le> startMin (ds ! j)"
    using sorted_nth_mono[OF srt, of i j] ij i by simp
  moreover have "startMin (ds ! i) \<noteq> startMin (ds ! j)"
    using dst ij i nth_eq_iff_index_eq[of "map startMin ds" i j] by simp
  ultimately have lt: "startMin (ds ! i) < startMin (ds ! j)" by simp
  have mem: "ds ! i \<in> set ds" "ds ! j \<in> set ds" using ij i by simp_all
  from sp mem lt show "endMin (ds ! i) \<le> startMin (ds ! j)"
    by (auto simp: spaced_def)
  from sp mem lt show "\<not> fixed (ds ! j) \<Longrightarrow> endMin (ds ! i) + buf \<le> startMin (ds ! j)"
    by (auto simp: spaced_def)
qed

text \<open>
  C1: in every schedule produced by \<^verbatim>\<open>buildSchedule\<close> (with a buffer that is not
  negative, as the settings form stores it) the block list is in start order and pairwise
  non-overlapping: of any two distinct blocks one ends at or before the other starts; and
  consecutive blocks that are both not fixed are at least the buffer apart (indeed every
  block that is not fixed starts at least the buffer after the end of every earlier block).
\<close>

theorem buildSchedule_no_overlap:
  assumes "0 \<le> buffer (settings st)"
  shows "(let bs = placed (buildSchedule gen st dateKey) in
     (\<forall>i j. i < j \<and> j < length bs \<longrightarrow> endMin (bs ! i) \<le> startMin (bs ! j))
     \<and> (\<forall>i j. i < length bs \<and> j < length bs \<and> i \<noteq> j \<longrightarrow>
            endMin (bs ! i) \<le> startMin (bs ! j) \<or> endMin (bs ! j) \<le> startMin (bs ! i))
     \<and> (\<forall>i. Suc i < length bs \<and> \<not> fixed (bs ! i) \<and> \<not> fixed (bs ! Suc i) \<longrightarrow>
            endMin (bs ! i) + buffer (settings st) \<le> startMin (bs ! Suc i))
     \<and> (\<forall>i j. i < j \<and> j < length bs \<and> \<not> fixed (bs ! j) \<longrightarrow>
            endMin (bs ! i) + buffer (settings st) \<le> startMin (bs ! j)))"
proof -
  let ?rng = "getDayRange st"
  let ?ds = "fst (runTasks gen ?rng (initialDayBlocks st) (sortTasks st (tasksToSchedule st dateKey)))"
  let ?bs = "placed (buildSchedule gen st dateKey)"
  have bs: "?bs = map block.truncate ?ds" by (rule placed_buildSchedule)
  obtain startM endM where rng: "?rng = (startM, endM, buffer (settings st))"
    by (simp add: getDayRange_def)
  have sp: "spaced (startM, endM, buffer (settings st)) ?ds"
    using spaced_runTasks[OF assms, of gen] rng by simp
  have ord: "endMin (?bs ! i) \<le> startMin (?bs ! j)" if "i < j" "j < length ?bs" for i j
    using spaced_nth(1)[OF sp, of i j] that by (simp add: bs truncate_fields)
  have gapb: "endMin (?bs ! i) + buffer (settings st) \<le> startMin (?bs ! j)"
    if "i < j" "j < length ?bs" "\<not> fixed (?bs ! j)" for i j
    using spaced_nth(2)[OF sp, of i j] that by (simp add: bs truncate_fields)
  have pw: "endMin (?bs ! i) \<le> startMin (?bs ! j) \<or> endMin (?bs ! j) \<le> startMin (?bs ! i)"
    if "i < length ?bs" "j < length ?bs" "i \<noteq> j" for i j
  proof (cases "i < j")
    case True
    then show ?thesis using ord[of i j] that by simp
  next
    case False
    then have "j < i" using that(3) by simp
    then show ?thesis using ord[of j i] that by simp
  qed
  have c1: "\<forall>i j. i < j \<and> j < length ?bs \<longrightarrow> endMin (?bs ! i) \<le> startMin (?bs ! j)"
    using ord by blast
  have c2: "\<forall>i j. i < length ?bs \<and> j < length ?bs \<and> i \<noteq> j \<longrightarrow>
              endMin (?bs ! i) \<le> startMin (?bs ! j) \<or> endMin (?bs ! j) \<le> startMin (?bs ! i)"
    using pw by blast
  have c3: "\<forall>i. Suc i < length ?bs \<and> \<not> fixed (?bs ! i) \<and> \<not> fixed (?bs ! Suc i) \<longrightarrow>
              endMin (?bs ! i) + buffer (settings st) \<le> startMin (?bs ! Suc i)"
    using gapb[of _ "Suc _"] by simp
  have c4: "\<forall>i j. i < j \<and> j < length ?bs \<and> \<not> fixed (?bs ! j) \<longrightarrow>
              endMin (?bs ! i) + buffer (settings st) \<le> startMin (?bs ! j)"
    using gapb by blast
  show ?thesis
    unfolding Let_def using c1 c2 c3 c4 by (intro conjI)
qed

lemma ex_placed:
  "placed (buildSchedule exGen exSt ''2025-01-10'') =
     [\<lparr>id_b = ''u0'', taskId = ''c'', title_b = ''c'', startMin = 540, endMin = 570,
        fixed = False, done_b = False\<rparr>,
      \<lparr>id_b = ''u1'', taskId = ''b'', title_b = ''b'' @ splitMark, startMin = 580, endMin = 640,
        fixed = False, done_b = False\<rparr>,
      \<lparr>id_b = ''u2'', taskId = ''b'', title_b = ''b'' @ splitMark, startMin = 650, endMin = 680,
        fixed = False, done_b = False\<rparr>,
      \<lparr>id_b = ''u3'', taskId = ''b'', title_b = ''b'' @ splitMark, startMin = 690, endMin = 700,
        fixed = False, done_b = False\<rparr>,
      \<lparr>id_b = ''lunch'', taskId = ''lunch'', title_b = lunchTitle, startMin = 720, endMin = 780,
        fixed = True, done_b = False\<rparr>,
      \<lparr>id_b = ''u'', taskId = ''a'', title_b = ''a'', startMin = 790, endMin = 850,
        fixed = False, done_b = False\<rparr>]"
  by (simp add: eval_defs)

lemma ex_unplaced: "unplaced (buildSchedule exGen exSt ''2025-01-10'') = []"
  by (simp add: eval_defs)

theorem buildSchedule_no_overlap_witness:
  "0 \<le> buffer (settings exSt)
   \<and> spans (placed (buildSchedule exGen exSt ''2025-01-10''))
       = [(540, 570), (580, 640), (650, 680), (690, 700), (720, 780), (790, 850)]
   \<and> endMin (placed (buildSchedule exGen exSt ''2025-01-10'') ! 0) + buffer (settings exSt)
       \<le> startMin (placed (buildSchedule exGen exSt ''2025-01-10'') ! Suc 0)"
proof -
  have h: "0 \<le> buffer (settings exSt)"
    by (simp add: exSt_def exState_def exSettings_def)
  let ?bs = "placed (buildSchedule exGen exSt ''2025-01-10'')"
  from buildSchedule_no_overlap [OF h, of exGen "''2025-01-10''"]
  have "Suc 0 < length ?bs \<and> \<not> fixed (?bs ! 0) \<and> \<not> fixed (?bs ! Suc 0) \<longrightarrow>
          endMin (?bs ! 0) + buffer (settings exSt) \<le> startMin (?bs ! Suc 0)"
    unfolding Let_def by blast
  moreover have "Suc 0 < length ?bs \<and> \<not> fixed (?bs ! 0) \<and> \<not> fixed (?bs ! Suc 0)"
    by (simp add: ex_placed)
  ultimately show ?thesis using h ex_spans by blast
qed
subsection \<open>Conservation of minutes\<close>

lemma roundedDur_normalized: "normalized t \<Longrightarrow> roundedDur t = duration t"
  unfolding normalized_def roundedDur_def by presburger

lemma placedMinutes_mset:
  "placedMinutes tid bs = sum_mset (image_mset blockLen (filter_mset (\<lambda>b. taskId b = tid) (mset bs)))"
  unfolding placedMinutes_def
  by (metis mset_filter mset_map sum_mset_sum_list)

lemma placedMinutes_insertBlock:
  "placedMinutes tid (insertBlock blk bs) =
     placedMinutes tid bs + (if taskId blk = tid then blockLen blk else 0)"
  by (simp add: placedMinutes_mset mset_insertBlock)

lemma placedMinutes_truncate:
  "placedMinutes tid (map block.truncate bs) = placedMinutes tid bs"
  by (induction bs) (auto simp: placedMinutes_def blockLen_def truncate_fields)

lemma remainderOf_snoc:
  "remainderOf tid (un @ [u]) = remainderOf tid un + (if id_t (fst u) = tid then entryRemaining u else 0)"
  by (simp add: remainderOf_def)

lemma taskBlock_len:
  "findGap rng bs n = Some gap \<Longrightarrow> blockLen (taskBlock newId t ttl gap) = n"
proof -
  assume a: "findGap rng bs n = Some gap"
  obtain startM endM buf where rng: "rng = (startM, endM, buf)" by (cases rng) auto
  obtain s e where gap: "gap = (s, e)" by (cases gap) auto
  from findGap_sound(1)[OF a[unfolded rng gap]] show ?thesis
    by (simp add: blockLen_def taskBlock_def gap)
qed

lemma taskBlock_taskId: "taskId (taskBlock newId t ttl gap) = id_t t"
  by (simp add: taskBlock_def)

lemma placeChunks_minutes:
  "0 \<le> remaining \<Longrightarrow>
   (case placeChunks gen rng t dur dayBlocks k remaining of
      (bs', k', r') \<Rightarrow>
        0 \<le> r' \<and> r' \<le> remaining
        \<and> (\<forall>tid. placedMinutes tid bs' =
              placedMinutes tid dayBlocks + (if id_t t = tid then remaining - r' else 0)))"
proof (induction gen rng t dur dayBlocks k remaining rule: placeChunks.induct)
  case (1 gen rng t dur dayBlocks k remaining)
  show ?case
  proof (cases "remaining > 0")
    case False
    then show ?thesis using "1.prems" by (simp add: placeChunks_stop)
  next
    case True
    show ?thesis
    proof (cases "findGap rng dayBlocks (chunkSize remaining)")
      case None
      with True show ?thesis by (simp add: placeChunks_None)
    next
      case (Some gap)
      let ?blk = "taskBlock (gen k) t
                    (title_t t @ (if dur \<noteq> chunkSize remaining then splitMark else [])) gap"
      have le: "chunkSize remaining \<le> remaining" "0 < chunkSize remaining"
        using True by (simp_all add: chunkSize_def)
      then have nn: "0 \<le> remaining - chunkSize remaining" by simp
      obtain bs' k' r' where res:
        "placeChunks gen rng t dur (insertBlock ?blk dayBlocks) (Suc k) (remaining - chunkSize remaining)
           = (bs', k', r')" by (cases "placeChunks gen rng t dur (insertBlock ?blk dayBlocks) (Suc k) (remaining - chunkSize remaining)") auto
      from "1.IH"[OF True refl Some nn] res
      have ih: "0 \<le> r'" "r' \<le> remaining - chunkSize remaining"
        "\<And>tid. placedMinutes tid bs' = placedMinutes tid (insertBlock ?blk dayBlocks)
             + (if id_t t = tid then remaining - chunkSize remaining - r' else 0)"
        by auto
      have "placedMinutes tid bs' = placedMinutes tid dayBlocks
              + (if id_t t = tid then remaining - r' else 0)" for tid
        using ih(3)[of tid] taskBlock_len[OF Some]
        by (simp add: placedMinutes_insertBlock taskBlock_taskId)
      with ih(1,2) le show ?thesis
        by (simp add: placeChunks_Some[OF True Some] res)
    qed
  qed
qed

lemma scheduleTask_minutes:
  assumes "normalized t" "scheduleTask gen rng (bs, un, k) t = (bs', un', k')"
  shows "placedMinutes tid bs' + remainderOf tid un' =
           placedMinutes tid bs + remainderOf tid un + (if id_t t = tid then duration t else 0)"
proof (cases "canSplit t")
  case False
  show ?thesis
  proof (cases "findGap rng bs (roundedDur t)")
    case None
    with False assms(2) have "bs' = bs" "un' = un @ [(t, None)]"
      by (auto simp: scheduleTask_def Let_def)
    then show ?thesis by (simp add: remainderOf_snoc)
  next
    case (Some gap)
    with False assms(2)
    have "bs' = insertBlock (taskBlock (gen k) t (title_t t) gap) bs" "un' = un"
      by (auto simp: scheduleTask_def Let_def)
    then show ?thesis
      using taskBlock_len[OF Some] roundedDur_normalized[OF assms(1)]
      by (simp add: placedMinutes_insertBlock taskBlock_taskId)
  qed
next
  case True
  let ?d = "roundedDur t"
  obtain cs ck r where pc: "placeChunks gen rng t ?d bs k ?d = (cs, ck, r)"
    by (cases "placeChunks gen rng t ?d bs k ?d") auto
  have d: "?d = duration t" by (rule roundedDur_normalized[OF assms(1)])
  have "0 \<le> ?d" using roundedDur_pos[of t] by simp
  from placeChunks_minutes[OF this, where gen = gen and rng = rng and t = t and dur = "?d"
        and dayBlocks = bs and k = k] pc
  have r: "0 \<le> r" "placedMinutes tid cs = placedMinutes tid bs + (if id_t t = tid then ?d - r else 0)"
    by auto
  from True assms(2) pc have "bs' = cs" "un' = (if r > 0 then un @ [(t, Some r)] else un)"
    by (auto simp: scheduleTask_def Let_def)
  with r d show ?thesis by (auto simp: remainderOf_snoc)
qed

lemma foldl_scheduleTask_minutes:
  assumes "\<forall>t\<in>set ts. normalized t" "foldl (scheduleTask gen rng) (bs, un, k) ts = (bs', un', k')"
  shows "placedMinutes tid bs' + remainderOf tid un' =
           placedMinutes tid bs + remainderOf tid un + demand tid ts"
  using assms
proof (induction ts arbitrary: bs un k)
  case Nil
  then show ?case by (simp add: demand_def)
next
  case (Cons t ts)
  obtain b1 u1 k1 where st: "scheduleTask gen rng (bs, un, k) t = (b1, u1, k1)"
    by (cases "scheduleTask gen rng (bs, un, k) t") auto
  have 1: "placedMinutes tid b1 + remainderOf tid u1 =
           placedMinutes tid bs + remainderOf tid un + (if id_t t = tid then duration t else 0)"
    using scheduleTask_minutes[OF _ st] Cons.prems(1) by simp
  have 2: "placedMinutes tid bs' + remainderOf tid un' =
           placedMinutes tid b1 + remainderOf tid u1 + demand tid ts"
    using Cons.IH[of b1 u1 k1] Cons.prems st by simp
  from 1 2 show ?case by (simp add: demand_def)
qed

lemma demand_distinct:
  "distinct (map id_t ts) \<Longrightarrow> t \<in> set ts \<Longrightarrow> demand (id_t t) ts = duration t"
proof (induction ts)
  case Nil
  then show ?case by simp
next
  case (Cons a ts)
  show ?case
  proof (cases "t = a")
    case True
    have "id_t a \<notin> id_t ` set ts" using Cons.prems(1) by simp
    then have "\<forall>x\<in>set ts. id_t x \<noteq> id_t a" by (metis image_eqI)
    then have "filter (\<lambda>x. id_t x = id_t a) ts = []"
      by (simp add: filter_empty_conv)
    with True show ?thesis by (simp add: demand_def)
  next
    case False
    with Cons.prems have "t \<in> set ts" "id_t a \<noteq> id_t t" by auto
    with Cons show ?thesis by (simp add: demand_def)
  qed
qed

lemma distinct_ids_sortTasks:
  "distinct (map id_t ts) \<Longrightarrow> distinct (map id_t (sortTasks st (filter P ts)))"
proof -
  assume d: "distinct (map id_t ts)"
  have "distinct (map id_t (filter P ts))" using d by (rule distinct_map_filter)
  moreover have "mset (map id_t (sortTasks st (filter P ts))) = mset (map id_t (filter P ts))"
    by (simp add: mset_sortTasks)
  ultimately show ?thesis using mset_eq_imp_distinct_iff by blast
qed

lemma set_sortTasks: "set (sortTasks st ts) = set ts"
  using mset_sortTasks[of st ts] by (metis set_mset_mset)

lemma placedMinutes_initial:
  "tid \<noteq> ''lunch'' \<Longrightarrow> placedMinutes tid (initialDayBlocks st) = 0"
  using initialDayBlocks_cases[of st]
  by (auto simp: placedMinutes_def lunchDayBlock_def)

lemma unplaced_buildSchedule:
  "unplaced (buildSchedule gen st dateKey) =
     fst (snd (runTasks gen (getDayRange st) (initialDayBlocks st)
                 (sortTasks st (tasksToSchedule st dateKey))))"
  by (simp add: buildSchedule_def Let_def split: prod.splits)

lemma buildSchedule_conservation:
  assumes norm: "\<forall>t\<in>set (tasks st). normalized t"
    and ids: "distinct (map id_t (tasks st))" "\<forall>t\<in>set (tasks st). id_t t \<noteq> ''lunch''"
    and t: "t \<in> set (tasks st)" "\<not> done_t t"
  shows "placedMinutes (id_t t) (placed (buildSchedule gen st dateKey))
         + remainderOf (id_t t) (unplaced (buildSchedule gen st dateKey)) = duration t"
proof -
  let ?ts = "sortTasks st (tasksToSchedule st dateKey)"
  obtain bs' un' k' where run:
    "runTasks gen (getDayRange st) (initialDayBlocks st) ?ts = (bs', un', k')"
    by (cases "runTasks gen (getDayRange st) (initialDayBlocks st) ?ts") auto
  have sub: "set ?ts = {t \<in> set (tasks st). \<not> done_t t}"
    by (auto simp: set_sortTasks tasksToSchedule_def)
  have n: "\<forall>t\<in>set ?ts. normalized t" using norm sub by auto
  have d: "distinct (map id_t ?ts)"
    unfolding tasksToSchedule_def by (rule distinct_ids_sortTasks[OF ids(1)])
  have tin: "t \<in> set ?ts" using t sub by auto
  from foldl_scheduleTask_minutes[OF n run[unfolded runTasks_def], of "id_t t"]
  have "placedMinutes (id_t t) bs' + remainderOf (id_t t) un' =
          placedMinutes (id_t t) (initialDayBlocks st) + demand (id_t t) ?ts"
    by (simp add: remainderOf_def)
  also have "\<dots> = duration t"
    using placedMinutes_initial[of "id_t t" st] ids(2) t(1) demand_distinct[OF d tin] by simp
  finally show ?thesis
    by (simp add: placed_buildSchedule unplaced_buildSchedule run placedMinutes_truncate)
qed


lemma splitLoop_stop:
  "\<not> (i < length freeIntervals \<and> 0 < remaining) \<Longrightarrow>
     splitLoop gen bufferMin t freeIntervals i remaining newBlocks k
       = (freeIntervals, remaining, newBlocks, k)"
  by (subst splitLoop.simps) auto

lemma splitLoop_skip:
  "i < length freeIntervals \<Longrightarrow> 0 < remaining \<Longrightarrow>
   end_i (freeIntervals ! i) - start_i (freeIntervals ! i) \<le> 0 \<Longrightarrow>
     splitLoop gen bufferMin t freeIntervals i remaining newBlocks k
       = splitLoop gen bufferMin t freeIntervals (Suc i) remaining newBlocks k"
  by (simp add: splitLoop.simps[of gen bufferMin t freeIntervals i remaining newBlocks k] Let_def)

lemma splitLoop_place:
  "i < length freeIntervals \<Longrightarrow> 0 < remaining \<Longrightarrow>
   \<not> end_i (freeIntervals ! i) - start_i (freeIntervals ! i) \<le> 0 \<Longrightarrow>
     splitLoop gen bufferMin t freeIntervals i remaining newBlocks k
       = splitLoop gen bufferMin t
           (subtractBusy freeIntervals
              \<lparr>start_i = start_i (freeIntervals ! i),
                 end_i = start_i (freeIntervals ! i)
                         + min (end_i (freeIntervals ! i) - start_i (freeIntervals ! i)) remaining
                         + bufferMin\<rparr>)
           0
           (remaining - min (end_i (freeIntervals ! i) - start_i (freeIntervals ! i)) remaining)
           (newBlocks @ [newBlock (gen k) t (start_i (freeIntervals ! i))
                           (start_i (freeIntervals ! i)
                            + min (end_i (freeIntervals ! i) - start_i (freeIntervals ! i)) remaining)])
           (Suc k)"
  by (simp add: splitLoop.simps[of gen bufferMin t freeIntervals i remaining newBlocks k] Let_def)

lemma splitLoop_minutes:
  "0 \<le> remaining \<Longrightarrow>
   (case splitLoop gen bufferMin t freeIntervals i remaining newBlocks k of
      (free', r', nb', k') \<Rightarrow>
        0 \<le> r' \<and> r' \<le> remaining
        \<and> (\<exists>new. nb' = newBlocks @ new \<and> sum_list (map glen new) = remaining - r'
                  \<and> int (length new) \<le> remaining - r' \<and> k' = k + length new))"
proof (induction gen bufferMin t freeIntervals i remaining newBlocks k rule: splitLoop.induct)
  case (1 gen bufferMin t freeIntervals i remaining newBlocks k)
  show ?case
  proof (cases "i < length freeIntervals \<and> 0 < remaining")
    case False
    then show ?thesis using "1.prems" by (simp add: splitLoop_stop)
  next
    case True
    then have c: "i < length freeIntervals" "0 < remaining" by simp_all
    let ?iv = "freeIntervals ! i"
    let ?av = "end_i ?iv - start_i ?iv"
    show ?thesis
    proof (cases "?av \<le> 0")
      case True
      from "1.IH"(1)[OF \<open>i < length freeIntervals \<and> 0 < remaining\<close> refl refl True "1.prems"]
      show ?thesis by (simp add: splitLoop_skip[OF c True])
    next
      case False
      define u where "u = min ?av remaining"
      let ?blk = "newBlock (gen k) t (start_i ?iv) (start_i ?iv + u)"
      let ?busy = "\<lparr>start_i = start_i ?iv, end_i = start_i ?iv + u + bufferMin\<rparr>"
      have use: "1 \<le> u" "u \<le> remaining" using False c(2) by (simp_all add: u_def)
      then have nn: "0 \<le> remaining - u" by simp
      obtain free' r' nb' k' where res:
        "splitLoop gen bufferMin t (subtractBusy freeIntervals ?busy) 0 (remaining - u)
           (newBlocks @ [?blk]) (Suc k) = (free', r', nb', k')"
        by (cases "splitLoop gen bufferMin t (subtractBusy freeIntervals ?busy) 0 (remaining - u)
           (newBlocks @ [?blk]) (Suc k)") auto
      have "case splitLoop gen bufferMin t (subtractBusy freeIntervals ?busy) 0 (remaining - u)
           (newBlocks @ [?blk]) (Suc k) of
          (free', r', nb', k') \<Rightarrow>
            0 \<le> r' \<and> r' \<le> remaining - u
            \<and> (\<exists>new. nb' = (newBlocks @ [?blk]) @ new
                  \<and> sum_list (map glen new) = remaining - u - r'
                  \<and> int (length new) \<le> remaining - u - r' \<and> k' = Suc k + length new)"
        unfolding u_def
        by (rule "1.IH"(2)[OF \<open>i < length freeIntervals \<and> 0 < remaining\<close> refl refl False
              refl refl refl refl nn[unfolded u_def]])
      with res obtain new where ih: "0 \<le> r'" "r' \<le> remaining - u"
        "nb' = (newBlocks @ [?blk]) @ new" "sum_list (map glen new) = remaining - u - r'"
        "int (length new) \<le> remaining - u - r'" "k' = Suc k + length new"
        by auto
      have g: "glen ?blk = u" by (simp add: glen_def newBlock_def)
      have "nb' = newBlocks @ (?blk # new)" using ih(3) by simp
      moreover have "sum_list (map glen (?blk # new)) = remaining - r'"
        using ih(4) g by simp
      moreover have "int (length (?blk # new)) \<le> remaining - r'"
        using ih(5) use(1) by simp
      moreover have "k' = k + length (?blk # new)" using ih(6) by simp
      ultimately have ex: "\<exists>new. nb' = newBlocks @ new \<and> sum_list (map glen new) = remaining - r'
                  \<and> int (length new) \<le> remaining - r' \<and> k' = k + length new"
        by blast
      have "splitLoop gen bufferMin t freeIntervals i remaining newBlocks k = (free', r', nb', k')"
        using splitLoop_place[OF c False, of gen bufferMin t newBlocks k] res
        by (simp add: u_def)
      with ih(1,2) use ex show ?thesis by simp
    qed
  qed
qed

lemma allocateTask_conservation:
  assumes "0 \<le> duration_g t"
    and "allocateTask gen bufferMin (free, blocks, unpl, k) t = (free', blocks', unpl', k')"
  shows "\<exists>new unew. blocks' = blocks @ new \<and> unpl' = unpl @ unew
           \<and> sum_list (map glen new) + sum_list (map snd unew) = duration_g t"
proof (cases "split_g t = SplitNo")
  case True
  show ?thesis
  proof (cases "List.find (\<lambda>iv. end_i iv - start_i iv \<ge> duration_g t) free")
    case None
    with True assms(2) have "blocks' = blocks @ []" "unpl' = unpl @ [(title_g t, duration_g t)]"
      by (auto simp: allocateTask_def Let_def)
    then show ?thesis by (metis list.simps(8,9) sum_list.Nil sum_list.Cons snd_conv add_0 add.right_neutral)
  next
    case (Some iv)
    with True assms(2)
    have "blocks' = blocks @ [newBlock (gen k) t (start_i iv) (start_i iv + duration_g t)]"
      "unpl' = unpl @ []"
      by (auto simp: allocateTask_def Let_def)
    moreover have "sum_list (map glen [newBlock (gen k) t (start_i iv) (start_i iv + duration_g t)])
        + sum_list (map snd ([] :: gunplaced list)) = duration_g t"
      by (simp add: glen_def newBlock_def)
    ultimately show ?thesis by blast
  qed
next
  case False
  obtain f r nb kk where sl: "splitLoop gen bufferMin t free 0 (duration_g t) [] k = (f, r, nb, kk)"
    by (cases "splitLoop gen bufferMin t free 0 (duration_g t) [] k") auto
  from splitLoop_minutes[OF assms(1), where gen = gen and bufferMin = bufferMin and t = t
        and freeIntervals = free and i = 0 and newBlocks = "[]" and k = k] sl
  have r: "0 \<le> r" "sum_list (map glen nb) = duration_g t - r" by auto
  from False assms(2) sl
  have b: "blocks' = blocks @ nb" "unpl' = unpl @ (if r > 0 then [(title_g t, r)] else [])"
    by (auto simp: allocateTask_def Let_def)
  have "sum_list (map glen nb) + sum_list (map snd (if r > 0 then [(title_g t, r)] else [])) = duration_g t"
    using r by auto
  with b show ?thesis by blast
qed

lemmas eval_defs2 = allocateTask_def splitLoop.simps subtractBusy_def pieces_def newBlock_def
  blockTitle_def blockKind_def exFree_def exG_def jsSort_def Let_def exGen_def

lemma ex3_run:
  "placed (buildSchedule exGen ex3St ''2025-01-10'') =
     [\<lparr>id_b = ''u0'', taskId = ''t1'', title_b = ''t1'', startMin = 540, endMin = 600,
        fixed = False, done_b = False\<rparr>]"
  "unplaced (buildSchedule exGen ex3St ''2025-01-10'')
     = [(exTask ''t2'' 60 Medium SplitNo None Empty 2, None)]"
  by (simp_all add: eval_defs ex3St_def ex3Settings_def)

lemma exG_run:
  "allocateTask exGen 0 (exFree, [], [], 0) exG =
     ([\<lparr>start_i = 700, end_i = 710\<rparr>],
      [\<lparr>id_g = ''u0'', title_gb = ''g'', start_g = 540, end_g = 590, kind_g = KindTask\<rparr>,
       \<lparr>id_g = ''u1'', title_gb = ''g'', start_g = 650, end_g = 700, kind_g = KindTask\<rparr>],
      [], 2)"
  by (simp add: eval_defs2)

text \<open>
  C6: for every task given to the allocator the minutes of the blocks placed for it plus
  the remainder recorded for it in \<^verbatim>\<open>unplaced\<close> equal the task's duration. For
  \<^verbatim>\<open>buildSchedule\<close> the tasks are as the task form stores them (duration on the
  5-minute grid, identifiers pairwise different and none equal to the break's); for
  \<^verbatim>\<open>generateSchedule\<close>, whose blocks do not refer to tasks, the statement is about
  the blocks and the entry added by the task's pass.
\<close>

theorem allocation_conservation:
  "((\<forall>t\<in>set (tasks st). normalized t) \<and> distinct (map id_t (tasks st))
      \<and> (\<forall>t\<in>set (tasks st). id_t t \<noteq> ''lunch'')
     \<longrightarrow> (\<forall>t\<in>set (tasks st). \<not> done_t t \<longrightarrow>
           placedMinutes (id_t t) (placed (buildSchedule gen st dateKey))
           + remainderOf (id_t t) (unplaced (buildSchedule gen st dateKey)) = duration t))
   \<and> (0 \<le> duration_g u \<longrightarrow>
        (case allocateTask gen' bufferMin (free, blocks, unpl, k) u of
           (free', blocks', unpl', k') \<Rightarrow>
             (\<exists>new unew. blocks' = blocks @ new \<and> unpl' = unpl @ unew
                \<and> sum_list (map glen new) + sum_list (map snd unew) = duration_g u)))"
proof -
  have b: "0 \<le> duration_g u \<longrightarrow>
        (case allocateTask gen' bufferMin (free, blocks, unpl, k) u of
           (free', blocks', unpl', k') \<Rightarrow>
             (\<exists>new unew. blocks' = blocks @ new \<and> unpl' = unpl @ unew
                \<and> sum_list (map glen new) + sum_list (map snd unew) = duration_g u))"
  proof
    assume d: "0 \<le> duration_g u"
    obtain f' b' u' k' where r: "allocateTask gen' bufferMin (free, blocks, unpl, k) u = (f', b', u', k')"
      by (cases "allocateTask gen' bufferMin (free, blocks, unpl, k) u") auto
    from allocateTask_conservation[OF d r] r
    show "case allocateTask gen' bufferMin (free, blocks, unpl, k) u of
           (free', blocks', unpl', k') \<Rightarrow>
             (\<exists>new unew. blocks' = blocks @ new \<and> unpl' = unpl @ unew
                \<and> sum_list (map glen new) + sum_list (map snd unew) = duration_g u)"
      by simp
  qed
  from buildSchedule_conservation[of st _ gen dateKey] b show ?thesis by blast
qed

theorem allocation_conservation_witness:
  "list_all normalized (tasks exSt) \<and> distinct (map id_t (tasks exSt))
   \<and> list_all (\<lambda>t. id_t t \<noteq> ''lunch'') (tasks exSt)
   \<and> placedMinutes ''b'' (placed (buildSchedule exGen exSt ''2025-01-10'')) = 100
   \<and> remainderOf ''b'' (unplaced (buildSchedule exGen exSt ''2025-01-10'')) = 0
   \<and> placedMinutes (id_t exB) (placed (buildSchedule exGen exSt ''2025-01-10''))
       + remainderOf (id_t exB) (unplaced (buildSchedule exGen exSt ''2025-01-10'')) = duration exB
   \<and> placedMinutes ''t2'' (placed (buildSchedule exGen ex3St ''2025-01-10'')) = 0
   \<and> remainderOf ''t2'' (unplaced (buildSchedule exGen ex3St ''2025-01-10'')) = 60
   \<and> 0 \<le> duration_g exG
   \<and> snd (allocateTask exGen 0 (exFree, [], [], 0) exG) =
       ([\<lparr>id_g = ''u0'', title_gb = ''g'', start_g = 540, end_g = 590, kind_g = KindTask\<rparr>,
         \<lparr>id_g = ''u1'', title_gb = ''g'', start_g = 650, end_g = 700, kind_g = KindTask\<rparr>],
        [], 2)"
proof -
  have h: "(\<forall>t\<in>set (tasks exSt). normalized t) \<and> distinct (map id_t (tasks exSt))
      \<and> (\<forall>t\<in>set (tasks exSt). id_t t \<noteq> ''lunch'')"
    by (simp add: exSt_def exState_def exA_def exB_def exC_def exTask_def normalized_def)
  have m: "exB \<in> set (tasks exSt)" "\<not> done_t exB"
    by (simp_all add: exSt_def exState_def exB_def exTask_def)
  from allocation_conservation [of exSt exGen "''2025-01-10''" exG] h m
  have c: "placedMinutes (id_t exB) (placed (buildSchedule exGen exSt ''2025-01-10''))
       + remainderOf (id_t exB) (unplaced (buildSchedule exGen exSt ''2025-01-10'')) = duration exB"
    by blast
  have e: "placedMinutes ''b'' (placed (buildSchedule exGen exSt ''2025-01-10'')) = 100"
    "remainderOf ''b'' (unplaced (buildSchedule exGen exSt ''2025-01-10'')) = 0"
    by (simp_all add: ex_placed ex_unplaced placedMinutes_def remainderOf_def blockLen_def)
  have e3: "placedMinutes ''t2'' (placed (buildSchedule exGen ex3St ''2025-01-10'')) = 0"
    "remainderOf ''t2'' (unplaced (buildSchedule exGen ex3St ''2025-01-10'')) = 60"
    by (simp_all add: placedMinutes_def remainderOf_def ex3_run exTask_def)
  have g: "0 \<le> duration_g exG" by (simp add: exG_def)
  from h c e e3 g show ?thesis by (simp add: list_all_iff exG_run)
qed
subsection \<open>The chunk loop\<close>

lemma chunkSeq_pos:
  "0 < remaining \<Longrightarrow> chunkSeq remaining = chunkSize remaining # chunkSeq (remaining - chunkSize remaining)"
  using chunkSeq.simps[of remaining] by simp

lemma chunkSeq_nonpos: "\<not> 0 < remaining \<Longrightarrow> chunkSeq remaining = []"
  using chunkSeq.simps[of remaining] by simp

lemma chunkSize_le: "0 < remaining \<Longrightarrow> chunkSize remaining \<le> remaining"
  by (simp add: chunkSize_def)

lemma length_chunkSeq:
  "0 \<le> remaining \<Longrightarrow> 30 * int (length (chunkSeq remaining)) \<le> remaining + 29"
proof (induction remaining rule: chunkSeq.induct)
  case (1 remaining)
  show ?case
  proof (cases "0 < remaining")
    case False
    then show ?thesis using "1.prems" by (simp add: chunkSeq_nonpos)
  next
    case True
    let ?rest = "remaining - chunkSize remaining"
    have nn: "0 \<le> ?rest" using chunkSize_le[OF True] by simp
    have ih: "30 * int (length (chunkSeq ?rest)) \<le> ?rest + 29"
      by (rule "1.IH"[OF True nn])
    have len: "int (length (chunkSeq remaining)) = 1 + int (length (chunkSeq ?rest))"
      by (simp add: chunkSeq_pos[OF True])
    consider "60 \<le> remaining" | "45 \<le> remaining" "remaining < 60"
      | "30 \<le> remaining" "remaining < 45" | "remaining < 30" by linarith
    then show ?thesis
    proof cases
      case 1
      then have "chunkSize remaining = 60" by (simp add: chunkSize_def)
      with ih len show ?thesis by simp
    next
      case 2
      then have "chunkSize remaining = 45" by (simp add: chunkSize_def)
      with ih len 2 show ?thesis by simp
    next
      case 3
      then have "chunkSize remaining = 30" by (simp add: chunkSize_def)
      with ih len 3 show ?thesis by simp
    next
      case 4
      then have c: "chunkSize remaining = remaining" by (simp add: chunkSize_def)
      have "chunkSeq (remaining - chunkSize remaining) = []"
        unfolding c by (simp add: chunkSeq_nonpos)
      with len True show ?thesis by simp
    qed
  qed
qed

lemma taskBlock_fixed: "\<not> fixed (taskBlock newId t ttl gap)"
  by (simp add: taskBlock_def)

lemma chunkTrace_Nil:
  "(0 < remaining \<Longrightarrow> findGap rng dayBlocks (chunkSize remaining) = None) \<Longrightarrow>
     chunkTrace rng t dayBlocks remaining dayBlocks remaining []"
  by (auto simp: chunkTrace_def chunkSeq_nonpos)

lemma chunkTrace_Cons:
  assumes pos: "0 < remaining" and fg: "findGap rng dayBlocks (chunkSize remaining) = Some gap"
    and blk: "blk = taskBlock newId t ttl gap"
    and tr: "chunkTrace rng t (insertBlock blk dayBlocks) (remaining - chunkSize remaining) bs' r' new"
  shows "chunkTrace rng t dayBlocks remaining bs' r' (blk # new)"
proof -
  have bl: "blockLen blk = chunkSize remaining" unfolding blk by (rule taskBlock_len[OF fg])
  note c = tr[unfolded chunkTrace_def]
  note ih = c[THEN conjunct1] c[THEN conjunct2, THEN conjunct1]
    c[THEN conjunct2, THEN conjunct2, THEN conjunct1]
    c[THEN conjunct2, THEN conjunct2, THEN conjunct2, THEN conjunct1]
    c[THEN conjunct2, THEN conjunct2, THEN conjunct2, THEN conjunct2, THEN conjunct1]
    c[THEN conjunct2, THEN conjunct2, THEN conjunct2, THEN conjunct2, THEN conjunct2]
  have 1: "mset bs' = mset dayBlocks + mset (blk # new)"
    using ih(1) by (simp add: mset_insertBlock)
  have 2: "map blockLen (blk # new) = take (length (blk # new)) (chunkSeq remaining)"
    using ih(2) bl by (simp add: chunkSeq_pos[OF pos])
  have 3: "r' = remaining - sum_list (map blockLen (blk # new))"
    using ih(3) bl by simp
  have 4: "\<forall>b\<in>set (blk # new). taskId b = id_t t \<and> \<not> fixed b"
    using ih(4) by (simp add: blk taskBlock_taskId taskBlock_fixed)
  have 5: "\<not> 0 < r' \<longrightarrow> length (blk # new) = length (chunkSeq remaining)"
    using ih(6) by (simp add: chunkSeq_pos[OF pos])
  show ?thesis
    unfolding chunkTrace_def using 1 2 3 4 ih(5) 5 by (intro conjI)
qed

lemma placeChunks_trace:
  "\<exists>new. chunkTrace rng t dayBlocks remaining
            (fst (placeChunks gen rng t dur dayBlocks k remaining))
            (snd (snd (placeChunks gen rng t dur dayBlocks k remaining))) new
         \<and> fst (snd (placeChunks gen rng t dur dayBlocks k remaining)) = k + length new"
proof (induction gen rng t dur dayBlocks k remaining rule: placeChunks.induct)
  case (1 gen rng t dur dayBlocks k remaining)
  show ?case
  proof (cases "remaining > 0")
    case False
    have eq: "placeChunks gen rng t dur dayBlocks k remaining = (dayBlocks, k, remaining)"
      by (rule placeChunks_stop[OF False])
    have "chunkTrace rng t dayBlocks remaining dayBlocks remaining []"
      using False by (intro chunkTrace_Nil) simp
    then have "chunkTrace rng t dayBlocks remaining dayBlocks remaining [] \<and> k = k + length ([] :: dayBlock list)"
      by simp
    then show ?thesis unfolding eq fst_conv snd_conv by (rule exI)
  next
    case True
    show ?thesis
    proof (cases "findGap rng dayBlocks (chunkSize remaining)")
      case None
      have eq: "placeChunks gen rng t dur dayBlocks k remaining = (dayBlocks, k, remaining)"
        by (rule placeChunks_None[OF True None])
      have "chunkTrace rng t dayBlocks remaining dayBlocks remaining []"
        using None by (intro chunkTrace_Nil)
      then have "chunkTrace rng t dayBlocks remaining dayBlocks remaining [] \<and> k = k + length ([] :: dayBlock list)"
        by simp
      then show ?thesis unfolding eq fst_conv snd_conv by (rule exI)
    next
      case (Some gap)
      define blk where "blk = taskBlock (gen k) t
          (title_t t @ (if dur \<noteq> chunkSize remaining then splitMark else [])) gap"
      define res where "res = placeChunks gen rng t dur (insertBlock blk dayBlocks) (Suc k)
          (remaining - chunkSize remaining)"
      have eq: "placeChunks gen rng t dur dayBlocks k remaining = res"
        unfolding res_def blk_def by (rule placeChunks_Some[OF True Some])
      have "\<exists>new. chunkTrace rng t (insertBlock blk dayBlocks) (remaining - chunkSize remaining)
                (fst res) (snd (snd res)) new \<and> fst (snd res) = Suc k + length new"
        unfolding res_def blk_def by (rule "1.IH"[OF True refl Some])
      then obtain new where ih:
        "chunkTrace rng t (insertBlock blk dayBlocks) (remaining - chunkSize remaining)
           (fst res) (snd (snd res)) new"
        "fst (snd res) = Suc k + length new"
        by (elim exE conjE)
      have "chunkTrace rng t dayBlocks remaining (fst res) (snd (snd res)) (blk # new)"
        by (rule chunkTrace_Cons[OF True Some blk_def ih(1)])
      moreover have "fst (snd res) = k + length (blk # new)" using ih(2) by simp
      ultimately have "chunkTrace rng t dayBlocks remaining (fst res) (snd (snd res)) (blk # new)
          \<and> fst (snd res) = k + length (blk # new)" by (rule conjI)
      then show ?thesis unfolding eq by (rule exI)
    qed
  qed
qed



lemma scheduleTask_split:
  assumes "canSplit t"
  shows "scheduleTask gen rng (dayBlocks, un, k) t =
     (case placeChunks gen rng t (roundedDur t) dayBlocks k (roundedDur t) of
        (bs', k', r') \<Rightarrow> (bs', if 0 < r' then un @ [(t, Some r')] else un, k'))"
  using assms by (simp add: scheduleTask_def Let_def)


subsection \<open>Chunk sizes of a splittable task\<close>


lemma ce3_run:
  "spans (placed (buildSchedule exGen (exState ce3Settings [sc4Task]) ''2025-01-10''))
     = [(720, 780)]"
  "unplaced (buildSchedule exGen (exState ce3Settings [sc4Task]) ''2025-01-10'')
     = [(sc4Task, Some 100)]"
  "findGap (getDayRange (exState ce3Settings [sc4Task])) [lunchDayBlock (720, 780)] 45
     = Some (670, 715)"
  "findGap (getDayRange (exState ce3Settings [sc4Task])) [lunchDayBlock (720, 780)] 30
     = Some (670, 700)"
  by (simp_all add: eval_defs ce3Settings_def sc4Task_def)





subsection \<open>Bounds on the passes\<close>

lemma scheduleTask_count:
  "(case scheduleTask gen rng (dayBlocks, un, k) t of
      (bs', un', k') \<Rightarrow>
        k \<le> k' \<and> length bs' = length dayBlocks + (k' - k)
        \<and> (if canSplit t then 30 * int (k' - k) \<le> roundedDur t + 29 else k' - k \<le> 1))"
proof (cases "canSplit t")
  case False
  have "length (insertBlock blk dayBlocks) = Suc (length dayBlocks)" for blk :: dayBlock
    by (simp add: insertBlock_def length_jsSort)
  with False show ?thesis
    by (auto simp: scheduleTask_def Let_def split: option.splits)
next
  case True
  let ?d = "roundedDur t"
  obtain bs' k' r' where pc: "placeChunks gen rng t ?d dayBlocks k ?d = (bs', k', r')"
    by (cases "placeChunks gen rng t ?d dayBlocks k ?d") auto
  from placeChunks_trace[of rng t dayBlocks ?d gen ?d k] pc
  obtain new where tr: "chunkTrace rng t dayBlocks ?d bs' r' new" and k': "k' = k + length new"
    by auto
  note c = tr[unfolded chunkTrace_def]
  have "size (mset bs') = size (mset dayBlocks + mset new)"
    using c[THEN conjunct1] by simp
  then have len: "length bs' = length dayBlocks + length new" by simp
  have "length (map blockLen new) = length (take (length new) (chunkSeq ?d))"
    using c[THEN conjunct2, THEN conjunct1] by simp
  then have "length new \<le> length (chunkSeq ?d)" by simp
  moreover have "30 * int (length (chunkSeq ?d)) \<le> ?d + 29"
    using length_chunkSeq[of ?d] roundedDur_pos[of t] by simp
  ultimately have "30 * int (length new) \<le> ?d + 29" by linarith
  with len k' True show ?thesis
    by (simp add: scheduleTask_split[OF True] pc)
qed

lemma chunkBound_count:
  "(if canSplit t then 30 * int n \<le> roundedDur t + 29 else n \<le> 1) \<Longrightarrow> n \<le> chunkBound t"
  unfolding chunkBound_def by (auto split: if_splits)

lemma foldl_scheduleTask_count:
  "length (fst (foldl (scheduleTask gen rng) (bs, un, k) ts)) \<le> length bs + sum_list (map chunkBound ts)"
proof (induction ts arbitrary: bs un k)
  case Nil
  show ?case by simp
next
  case (Cons t ts)
  obtain b1 u1 k1 where st: "scheduleTask gen rng (bs, un, k) t = (b1, u1, k1)"
    by (cases "scheduleTask gen rng (bs, un, k) t") auto
  have c: "k \<le> k1 \<and> length b1 = length bs + (k1 - k)
        \<and> (if canSplit t then 30 * int (k1 - k) \<le> roundedDur t + 29 else k1 - k \<le> 1)"
    using scheduleTask_count[where gen = gen and rng = rng and dayBlocks = bs and un = un
            and k = k and t = t]
    unfolding st prod.case .
  note 1 = c[THEN conjunct2, THEN conjunct1] c[THEN conjunct2, THEN conjunct2]
  have "k1 - k \<le> chunkBound t" by (rule chunkBound_count[OF 1(2)])
  with 1(1) Cons.IH[of b1 u1 k1] st show ?case by simp
qed

lemma sum_list_sortTasks: "sum_list (map f (sortTasks st ts)) = sum_list (map f ts)" for f :: "task \<Rightarrow> nat"
proof -
  have "mset (map f (sortTasks st ts)) = mset (map f ts)" by (simp add: mset_sortTasks)
  then show ?thesis by (metis sum_mset_sum_list)
qed

lemma buildSchedule_count:
  "length (placed (buildSchedule gen st dateKey))
     \<le> length (initialDayBlocks st) + sum_list (map chunkBound (tasksToSchedule st dateKey))"
  using foldl_scheduleTask_count[where gen = gen and rng = "getDayRange st"
          and bs = "initialDayBlocks st" and un = "[]" and k = 0
          and ts = "sortTasks st (tasksToSchedule st dateKey)"]
  by (simp add: placed_buildSchedule runTasks_def sum_list_sortTasks)

lemma allocateTask_count:
  assumes "0 \<le> duration_g u"
  shows "(case allocateTask gen bufferMin (free, blocks, unpl, k) u of
      (free', blocks', unpl', k') \<Rightarrow>
        k \<le> k' \<and> length blocks' = length blocks + (k' - k)
        \<and> (if split_g u = SplitNo then k' - k \<le> 1 else int (k' - k) \<le> duration_g u))"
proof (cases "split_g u = SplitNo")
  case True
  then show ?thesis by (auto simp: allocateTask_def Let_def split: option.splits)
next
  case False
  obtain f r nb kk where sl: "splitLoop gen bufferMin u free 0 (duration_g u) [] k = (f, r, nb, kk)"
    by (cases "splitLoop gen bufferMin u free 0 (duration_g u) [] k") auto
  from splitLoop_minutes[OF assms, where gen = gen and bufferMin = bufferMin and t = u
        and freeIntervals = free and i = 0 and newBlocks = "[]" and k = k] sl
  have "0 \<le> r" "int (length nb) \<le> duration_g u - r" "kk = k + length nb" by auto
  with False sl show ?thesis by (simp add: allocateTask_def Let_def)
qed

text \<open>
  C10 (as amended): the allocator is total (its loops are defined with termination
  proofs) and makes one pass per task. In \<^verbatim>\<open>buildSchedule\<close> the pass of a splittable
  task with rounded duration \<open>d\<close> places \<open>n\<close> chunks with \<open>30 n \<le> d + 29\<close>, the pass of
  an unsplittable task at most one block, and the schedule has at most that many blocks
  besides the break. In \<^verbatim>\<open>generateSchedule\<close> the pass of a splittable task places at
  most as many chunks as the task has minutes.
\<close>

theorem allocator_bounded:
  "(case scheduleTask gen rng (dayBlocks, un, k) t of
      (bs', un', k') \<Rightarrow>
        k \<le> k' \<and> length bs' = length dayBlocks + (k' - k)
        \<and> (if canSplit t then 30 * int (k' - k) \<le> roundedDur t + 29 else k' - k \<le> 1))
   \<and> length (placed (buildSchedule gen st dateKey))
       \<le> length (initialDayBlocks st) + sum_list (map chunkBound (tasksToSchedule st dateKey))
   \<and> (0 \<le> duration_g u \<longrightarrow>
        (case allocateTask gen' bufferMin (free, blocks, unpl, k0) u of
           (free', blocks', unpl', k1) \<Rightarrow>
             k0 \<le> k1 \<and> length blocks' = length blocks + (k1 - k0)
             \<and> (if split_g u = SplitNo then k1 - k0 \<le> 1 else int (k1 - k0) \<le> duration_g u)))"
  using scheduleTask_count[where gen = gen and rng = rng and dayBlocks = dayBlocks and un = un
          and k = k and t = t]
    buildSchedule_count[where gen = gen and st = st and dateKey = dateKey]
    allocateTask_count[where u = u and gen = gen' and bufferMin = bufferMin and free = free
          and blocks = blocks and unpl = unpl and k = k0]
  by blast

theorem allocator_bounded_witness:
  "canSplit ce10Task \<and> roundedDur ce10Task = 35 \<and> 0 \<le> duration_g ce10G
   \<and> snd (snd (scheduleTask exGen (540, 1020, 10) ([lunchDayBlock (720, 780)], [], 0) ce10Task)) = 2
   \<and> 30 * int (snd (snd (scheduleTask exGen (540, 1020, 10) ([lunchDayBlock (720, 780)], [], 0)
                           ce10Task)) - 0) \<le> roundedDur ce10Task + 29
   \<and> snd (snd (snd (allocateTask exGen 0 (ce10Free, [], [], 0) ce10G))) = 2"
  using allocator_bounded [where gen = exGen and rng = "(540, 1020, 10)"
          and dayBlocks = "[lunchDayBlock (720, 780)]" and un = "[]" and k = 0 and t = ce10Task
          and st = exSt and dateKey = "''2025-01-10''" and u = ce10G and gen' = exGen
          and bufferMin = 0 and free = ce10Free and blocks = "[]" and unpl = "[]" and k0 = 0]
  by (simp add: eval_defs eval_defs2 ce10Task_def ce10G_def ce10Free_def)

text \<open>
  The bound of the claim fails: a splittable task of 35 minutes is placed as two chunks
  (30 and 5), more than 35/30; and the free-interval allocator places a task of 10
  minutes as two chunks of 5 minutes.
\<close>

theorem allocator_bounded_counterexample:
  "duration ce10Task = 35
   \<and> chunksPlaced ''s'' (placed (buildSchedule exGen (exState exSettings [ce10Task]) ''2025-01-10'')) = 2
   \<and> \<not> 30 * int (chunksPlaced ''s''
                    (placed (buildSchedule exGen (exState exSettings [ce10Task]) ''2025-01-10'')))
          \<le> duration ce10Task
   \<and> duration_g ce10G = 10
   \<and> length (fst (snd (allocateTask exGen 0 (ce10Free, [], [], 0) ce10G))) = 2
   \<and> \<not> 30 * int (length (fst (snd (allocateTask exGen 0 (ce10Free, [], [], 0) ce10G))))
          \<le> duration_g ce10G"
  by (simp add: eval_defs eval_defs2 ce10Task_def ce10G_def ce10Free_def chunksPlaced_def)
subsection \<open>Determinism\<close>

lemma forgetId_fields:
  "startMin (forgetId b) = startMin b" "endMin (forgetId b) = endMin b"
  by (simp_all add: forgetId_def)

lemma byStart_forgetId: "byStart (forgetId a) (forgetId b) = byStart a b"
  by (simp add: byStart_def forgetId_fields)

lemma jsSort_forgetId: "map forgetId (jsSort byStart bs) = jsSort byStart (map forgetId bs)"
  by (simp add: jsSort_map[where g = forgetId] byStart_forgetId)

lemma scanGap_forgetId:
  "scanGap endM buf n c (map forgetId bs) = scanGap endM buf n c bs"
  by (induction bs arbitrary: c) (simp_all add: forgetId_fields)

lemma findGap_forgetId: "findGap rng (map forgetId bs) n = findGap rng bs n"
  by (simp add: findGap_def jsSort_forgetId[symmetric] scanGap_forgetId split: prod.splits)

lemma findGap_cong_forgetId:
  "map forgetId bs1 = map forgetId bs2 \<Longrightarrow> findGap rng bs1 n = findGap rng bs2 n"
  by (metis findGap_forgetId)

lemma insertBlock_forgetId:
  "map forgetId (insertBlock blk bs) = insertBlock (forgetId blk) (map forgetId bs)"
  by (simp add: insertBlock_def jsSort_forgetId)

lemma taskBlock_forgetId:
  "forgetId (taskBlock id1 t ttl gap) = forgetId (taskBlock id2 t ttl gap)"
  by (simp add: forgetId_def taskBlock_def)

lemma placeChunks_forgetId:
  "map forgetId dayBlocks = map forgetId bs2 \<Longrightarrow>
     map forgetId (fst (placeChunks gen rng t dur dayBlocks k remaining))
       = map forgetId (fst (placeChunks gen2 rng t dur bs2 k2 remaining))
     \<and> snd (snd (placeChunks gen rng t dur dayBlocks k remaining))
       = snd (snd (placeChunks gen2 rng t dur bs2 k2 remaining))"
proof (induction gen rng t dur dayBlocks k remaining arbitrary: bs2 k2 rule: placeChunks.induct)
  case (1 gen rng t dur dayBlocks k remaining)
  show ?case
  proof (cases "remaining > 0")
    case False
    then show ?thesis using "1.prems" by (simp add: placeChunks_stop)
  next
    case True
    have fg: "findGap rng bs2 (chunkSize remaining) = findGap rng dayBlocks (chunkSize remaining)"
      by (rule findGap_cong_forgetId[OF "1.prems"[symmetric]])
    show ?thesis
    proof (cases "findGap rng dayBlocks (chunkSize remaining)")
      case None
      with True fg "1.prems" show ?thesis by (simp add: placeChunks_None)
    next
      case (Some gap)
      define ttl where "ttl = title_t t @ (if dur \<noteq> chunkSize remaining then splitMark else [])"
      have Some2: "findGap rng bs2 (chunkSize remaining) = Some gap" using fg Some by simp
      have eq: "map forgetId (insertBlock (taskBlock (gen k) t ttl gap) dayBlocks)
                = map forgetId (insertBlock (taskBlock (gen2 k2) t ttl gap) bs2)"
        using "1.prems" taskBlock_forgetId[of "gen k" t ttl gap "gen2 k2"]
        by (simp add: insertBlock_forgetId)
      have e1: "placeChunks gen rng t dur dayBlocks k remaining =
                placeChunks gen rng t dur (insertBlock (taskBlock (gen k) t ttl gap) dayBlocks)
                  (Suc k) (remaining - chunkSize remaining)"
        unfolding ttl_def by (rule placeChunks_Some[OF True Some])
      have e2: "placeChunks gen2 rng t dur bs2 k2 remaining =
                placeChunks gen2 rng t dur (insertBlock (taskBlock (gen2 k2) t ttl gap) bs2)
                  (Suc k2) (remaining - chunkSize remaining)"
        unfolding ttl_def by (rule placeChunks_Some[OF True Some2])
      show ?thesis
        unfolding e1 e2
        by (rule "1.IH"[OF True refl Some, folded ttl_def, OF eq])
    qed
  qed
qed

lemma scheduleTask_forgetId:
  assumes "map forgetId bs1 = map forgetId bs2"
  shows "map forgetId (fst (scheduleTask gen1 rng (bs1, un, k1) t))
           = map forgetId (fst (scheduleTask gen2 rng (bs2, un, k2) t))
         \<and> fst (snd (scheduleTask gen1 rng (bs1, un, k1) t))
           = fst (snd (scheduleTask gen2 rng (bs2, un, k2) t))"
proof (cases "canSplit t")
  case False
  have fg: "findGap rng bs1 (roundedDur t) = findGap rng bs2 (roundedDur t)"
    by (rule findGap_cong_forgetId[OF assms])
  show ?thesis
  proof (cases "findGap rng bs2 (roundedDur t)")
    case None
    with False fg assms show ?thesis by (simp add: scheduleTask_def Let_def)
  next
    case (Some gap)
    have "map forgetId (insertBlock (taskBlock (gen1 k1) t (title_t t) gap) bs1)
          = map forgetId (insertBlock (taskBlock (gen2 k2) t (title_t t) gap) bs2)"
      using assms taskBlock_forgetId[of "gen1 k1" t "title_t t" gap "gen2 k2"]
      by (simp add: insertBlock_forgetId)
    with False fg Some show ?thesis by (simp add: scheduleTask_def Let_def)
  qed
next
  case True
  let ?d = "roundedDur t"
  obtain a1 j1 r1 where p1: "placeChunks gen1 rng t ?d bs1 k1 ?d = (a1, j1, r1)"
    by (cases "placeChunks gen1 rng t ?d bs1 k1 ?d") auto
  obtain a2 j2 r2 where p2: "placeChunks gen2 rng t ?d bs2 k2 ?d = (a2, j2, r2)"
    by (cases "placeChunks gen2 rng t ?d bs2 k2 ?d") auto
  from placeChunks_forgetId[OF assms, of gen1 rng t ?d k1 ?d gen2 k2] p1 p2
  have "map forgetId a1 = map forgetId a2" "r1 = r2" by simp_all
  then show ?thesis
    by (simp add: scheduleTask_split[OF True] p1 p2)
qed

lemma foldl_scheduleTask_forgetId:
  "map forgetId bs1 = map forgetId bs2 \<Longrightarrow>
     map forgetId (fst (foldl (scheduleTask gen1 rng) (bs1, un, k1) ts))
       = map forgetId (fst (foldl (scheduleTask gen2 rng) (bs2, un, k2) ts))
     \<and> fst (snd (foldl (scheduleTask gen1 rng) (bs1, un, k1) ts))
       = fst (snd (foldl (scheduleTask gen2 rng) (bs2, un, k2) ts))"
proof (induction ts arbitrary: bs1 bs2 un k1 k2)
  case Nil
  then show ?case by simp
next
  case (Cons t ts)
  obtain a1 u1 j1 where s1: "scheduleTask gen1 rng (bs1, un, k1) t = (a1, u1, j1)"
    by (cases "scheduleTask gen1 rng (bs1, un, k1) t") auto
  obtain a2 u2 j2 where s2: "scheduleTask gen2 rng (bs2, un, k2) t = (a2, u2, j2)"
    by (cases "scheduleTask gen2 rng (bs2, un, k2) t") auto
  from scheduleTask_forgetId[OF Cons.prems, of gen1 rng un k1 t gen2 k2] s1 s2
  have "map forgetId a1 = map forgetId a2" "u1 = u2" by simp_all
  with Cons.IH[of a1 a2 u1 j1 j2] s1 s2 show ?case by simp
qed

lemma truncate_forgetId: "block.truncate (forgetId b) = forgetId (block.truncate b)"
  by (simp add: block.truncate_def forgetId_def)

text \<open>
  C8 (as amended): two runs of \<^verbatim>\<open>buildSchedule\<close> on the same tasks and settings yield
  the same \<^verbatim>\<open>unplaced\<close> list and the same block list up to the identifiers of the
  blocks that are not fixed, which \<^verbatim>\<open>uid()\<close> draws afresh in every run: same order,
  task references, titles, starts, ends and flags.
\<close>

theorem buildSchedule_deterministic_up_to_ids:
  "map forgetId (placed (buildSchedule gen1 st dateKey))
     = map forgetId (placed (buildSchedule gen2 st dateKey))
   \<and> unplaced (buildSchedule gen1 st dateKey) = unplaced (buildSchedule gen2 st dateKey)"
proof -
  let ?rng = "getDayRange st"
  let ?ts = "sortTasks st (tasksToSchedule st dateKey)"
  let ?r1 = "runTasks gen1 ?rng (initialDayBlocks st) ?ts"
  let ?r2 = "runTasks gen2 ?rng (initialDayBlocks st) ?ts"
  from foldl_scheduleTask_forgetId[OF refl, of gen1 ?rng "initialDayBlocks st" "[]" 0 ?ts gen2 0]
  have r: "map forgetId (fst ?r1) = map forgetId (fst ?r2)" "fst (snd ?r1) = fst (snd ?r2)"
    by (simp_all add: runTasks_def)
  have "map forgetId (map block.truncate (fst ?r1)) = map forgetId (map block.truncate (fst ?r2))"
    using arg_cong[OF r(1), of "map block.truncate"]
    by (simp add: comp_def truncate_forgetId)
  then have a: "map forgetId (placed (buildSchedule gen1 st dateKey))
     = map forgetId (placed (buildSchedule gen2 st dateKey))"
    by (simp add: placed_buildSchedule)
  have b: "unplaced (buildSchedule gen1 st dateKey) = unplaced (buildSchedule gen2 st dateKey)"
    using r(2) by (simp add: unplaced_buildSchedule)
  show ?thesis using a b by simp
qed

theorem buildSchedule_deterministic_up_to_ids_witness:
  "map forgetId (placed (buildSchedule exGen ex3St ''2025-01-10''))
     = map forgetId (placed (buildSchedule exGen2 ex3St ''2025-01-10''))
   \<and> unplaced (buildSchedule exGen ex3St ''2025-01-10'')
     = unplaced (buildSchedule exGen2 ex3St ''2025-01-10'')"
  using buildSchedule_deterministic_up_to_ids [of exGen ex3St "''2025-01-10''" exGen2]
  by simp

text \<open>
  The claim as stated fails: the identifiers of the placed blocks are the values of
  \<^verbatim>\<open>uid()\<close>, so two runs on the same input give different block lists.
\<close>

theorem buildSchedule_deterministic_counterexample:
  "map id_b (placed (buildSchedule exGen ex3St ''2025-01-10'')) = [''u0'']
   \<and> map id_b (placed (buildSchedule exGen2 ex3St ''2025-01-10'')) = [''v'']
   \<and> placed (buildSchedule exGen ex3St ''2025-01-10'')
       \<noteq> placed (buildSchedule exGen2 ex3St ''2025-01-10'')"
  by (simp add: eval_defs ex3St_def ex3Settings_def exGen2_def)
subsection \<open>Manual moves\<close>

lemma sorted_byStart_id: "sorted (map startMin bs) \<Longrightarrow> jsSort byStart bs = bs"
proof -
  assume "sorted (map startMin bs)"
  then have "sorted_wrt (\<lambda>a b. byStart a b \<le> 0) bs"
    by (simp add: sorted_map byStart_def)
  then show ?thesis by (rule jsSort_sorted_id)
qed

lemma sorted_getScheduleForDate: "sorted (map startMin (getScheduleForDate st dateKey))"
  by (simp add: getScheduleForDate_def sorted_jsSort_byStart)

lemma getScheduleForDate_update:
  "getScheduleForDate (st\<lparr>scheduleByDate := (scheduleByDate st)(dateKey \<mapsto> bs)\<rparr>) dateKey
     = jsSort byStart bs"
  by (simp add: getScheduleForDate_def)

lemma findIndex_Some:
  "findIndex P xs = Some i \<Longrightarrow> i < length xs \<and> P (xs ! i) \<and> (\<forall>j<i. \<not> P (xs ! j))"
proof (induction xs arbitrary: i)
  case Nil
  then show ?case by simp
next
  case (Cons x xs)
  show ?case
  proof (cases "P x")
    case True
    with Cons.prems show ?thesis by simp
  next
    case False
    with Cons.prems obtain k where k: "findIndex P xs = Some k" "i = Suc k" by auto
    from Cons.IH[OF k(1)] False k(2) show ?thesis
      by (auto simp: less_Suc_eq_0_disj)
  qed
qed

lemma hasOverlap_iff:
  assumes "s < e" "\<forall>b\<in>set (getScheduleForDate st dateKey). startMin b < endMin b"
  shows "hasOverlap st dateKey bid s e = overlapsOther (getScheduleForDate st dateKey) bid s e"
  using assms
  by (auto simp: hasOverlap_def overlapsOther_def rangesOverlap_def Let_def list_ex_iff)

lemma exMove_blocks: "getScheduleForDate exMoveSt ''2025-01-10'' = exDay"
  by (simp add: getScheduleForDate_def exMoveSt_def exDay_def exBlock_def jsSort_def byStart_def)

text \<open>
  C7: a manual move of a block that is not fixed (to a candidate range of positive
  length, in a day whose stored blocks have positive length) is accepted exactly when the
  candidate overlaps no other block of the day, fixed or not: then the block's range is
  replaced and the day is stored in start order, and no buffer is required around the
  moved block. When the candidate overlaps another block the state is left unchanged.
  The operation returns a state in every case.
\<close>

theorem moveBlock_accepts_iff_no_overlap:
  assumes found: "findIndex (\<lambda>b. id_b b = bid) (getScheduleForDate st dateKey) = Some idx"
    and nonfixed: "\<not> fixed (getScheduleForDate st dateKey ! idx)"
    and cand: "s < e"
    and wf: "\<forall>b\<in>set (getScheduleForDate st dateKey). startMin b < endMin b"
  shows "(\<not> overlapsOther (getScheduleForDate st dateKey) bid s e \<longrightarrow>
            getScheduleForDate (moveBlock st dateKey bid s e) dateKey
              = jsSort byStart ((getScheduleForDate st dateKey)
                  [idx := (getScheduleForDate st dateKey ! idx)\<lparr>startMin := s, endMin := e\<rparr>])
            \<and> settings (moveBlock st dateKey bid s e) = settings st
            \<and> tasks (moveBlock st dateKey bid s e) = tasks st)
         \<and> (overlapsOther (getScheduleForDate st dateKey) bid s e \<longrightarrow>
              moveBlock st dateKey bid s e = st)"
proof -
  let ?blocks = "getScheduleForDate st dateKey"
  have ov: "hasOverlap st dateKey bid s e = overlapsOther ?blocks bid s e"
    by (rule hasOverlap_iff[OF cand wf])
  have a: "getScheduleForDate (moveBlock st dateKey bid s e) dateKey
              = jsSort byStart (?blocks[idx := (?blocks ! idx)\<lparr>startMin := s, endMin := e\<rparr>])
            \<and> settings (moveBlock st dateKey bid s e) = settings st
            \<and> tasks (moveBlock st dateKey bid s e) = tasks st"
    if no: "\<not> overlapsOther ?blocks bid s e"
  proof -
    let ?new = "jsSort byStart (?blocks[idx := (?blocks ! idx)\<lparr>startMin := s, endMin := e\<rparr>])"
    have m: "moveBlock st dateKey bid s e
               = st\<lparr>scheduleByDate := (scheduleByDate st)(dateKey \<mapsto> ?new)\<rparr>"
      using found nonfixed no ov by (simp add: moveBlock_def Let_def)
    have "jsSort byStart ?new = ?new"
      by (rule sorted_byStart_id) (rule sorted_jsSort_byStart)
    then show ?thesis unfolding m by (simp add: getScheduleForDate_update)
  qed
  have b: "moveBlock st dateKey bid s e = st" if "overlapsOther ?blocks bid s e"
    using found nonfixed that ov by (simp add: moveBlock_def Let_def)
  from a b show ?thesis by blast
qed

theorem moveBlock_accepts_iff_no_overlap_witness:
  "findIndex (\<lambda>b. id_b b = ''x'') (getScheduleForDate exMoveSt ''2025-01-10'') = Some 0
   \<and> \<not> fixed (getScheduleForDate exMoveSt ''2025-01-10'' ! 0)
   \<and> list_all (\<lambda>b. startMin b < endMin b) (getScheduleForDate exMoveSt ''2025-01-10'')
   \<and> buffer (settings exMoveSt) = 10
   \<and> \<not> overlapsOther (getScheduleForDate exMoveSt ''2025-01-10'') ''x'' 660 720
   \<and> getScheduleForDate (moveBlock exMoveSt ''2025-01-10'' ''x'' 660 720) ''2025-01-10''
       = [exBlock ''y'' ''b'' 600 660 False, exBlock ''x'' ''a'' 660 720 False,
          exBlock ''lunch'' ''lunch'' 720 780 True]
   \<and> overlapsOther (getScheduleForDate exMoveSt ''2025-01-10'') ''x'' 630 690
   \<and> moveBlock exMoveSt ''2025-01-10'' ''x'' 630 690 = exMoveSt"
proof -
  let ?d = "''2025-01-10''"
  have f: "findIndex (\<lambda>b. id_b b = ''x'') (getScheduleForDate exMoveSt ?d) = Some 0"
    by (simp add: exMove_blocks exDay_def exBlock_def)
  have n: "\<not> fixed (getScheduleForDate exMoveSt ?d ! 0)"
    by (simp add: exMove_blocks exDay_def exBlock_def)
  have w: "\<forall>b\<in>set (getScheduleForDate exMoveSt ?d). startMin b < endMin b"
    by (simp add: exMove_blocks exDay_def exBlock_def)
  have c1: "(660::int) < 720" and c2: "(630::int) < 690" by simp_all
  have o1: "\<not> overlapsOther (getScheduleForDate exMoveSt ?d) ''x'' 660 720"
    by (simp add: exMove_blocks exDay_def exBlock_def overlapsOther_def rangesOverlap_def)
  have o2: "overlapsOther (getScheduleForDate exMoveSt ?d) ''x'' 630 690"
    by (simp add: exMove_blocks exDay_def exBlock_def overlapsOther_def rangesOverlap_def)
  have b: "buffer (settings exMoveSt) = 10" by (simp add: exMoveSt_def exSettings_def)
  from moveBlock_accepts_iff_no_overlap [OF f n c1 w] o1
  have a1: "getScheduleForDate (moveBlock exMoveSt ?d ''x'' 660 720) ?d
       = jsSort byStart ((getScheduleForDate exMoveSt ?d)
           [0 := (getScheduleForDate exMoveSt ?d ! 0)\<lparr>startMin := 660, endMin := 720\<rparr>])"
    by blast
  have a2: "jsSort byStart ((getScheduleForDate exMoveSt ?d)
           [0 := (getScheduleForDate exMoveSt ?d ! 0)\<lparr>startMin := 660, endMin := 720\<rparr>])
       = [exBlock ''y'' ''b'' 600 660 False, exBlock ''x'' ''a'' 660 720 False,
          exBlock ''lunch'' ''lunch'' 720 780 True]"
    by (simp add: exMove_blocks exDay_def exBlock_def jsSort_def byStart_def)
  from moveBlock_accepts_iff_no_overlap [OF f n c2 w] o2
  have a3: "moveBlock exMoveSt ?d ''x'' 630 690 = exMoveSt" by blast
  from f n w b o1 o2 a1 a2 a3 show ?thesis by (simp add: list_all_iff)
qed
subsection \<open>Removing a block and toggling completion\<close>

lemma filter_sorted_starts:
  "sorted (map startMin bs) \<Longrightarrow> sorted (map startMin (filter P bs))"
  by (induction bs) auto

lemma toggle_tasks:
  assumes found: "findIndex (\<lambda>x. id_b x = bid) (getScheduleForDate st dateKey) = Some idx"
  shows "tasks (toggleBlockDone st dateKey bid) =
     (if taskId (getScheduleForDate st dateKey ! idx) \<noteq> []
         \<and> taskId (getScheduleForDate st dateKey ! idx) \<noteq> ''lunch''
      then (case findIndex (\<lambda>t. id_t t = taskId (getScheduleForDate st dateKey ! idx)) (tasks st) of
              None \<Rightarrow> tasks st
            | Some ti \<Rightarrow> (tasks st)[ti := (tasks st ! ti)
                 \<lparr>done_t := taskDoneAfterToggle (getScheduleForDate st dateKey) idx\<rparr>])
      else tasks st)"
proof -
  let ?blocks = "getScheduleForDate st dateKey"
  let ?b = "(?blocks ! idx)\<lparr>done_b := \<not> done_b (?blocks ! idx)\<rparr>"
  have idx: "idx < length ?blocks" using findIndex_Some[OF found] by simp
  have "?b \<in> set (?blocks[idx := ?b])" using idx by (simp add: set_update_memI)
  then have ne: "filter (\<lambda>x. taskId x = taskId (?blocks ! idx)) (?blocks[idx := ?b]) \<noteq> []"
    by (auto simp: filter_empty_conv intro!: bexI[of _ ?b])
  show ?thesis
    using found ne
    by (simp add: toggleBlockDone_def Let_def taskDoneAfterToggle_def split: option.splits)
qed

lemma toggle_tasks_frame:
  assumes found: "findIndex (\<lambda>x. id_b x = bid) (getScheduleForDate st dateKey) = Some idx"
  shows "map forgetDone (tasks (toggleBlockDone st dateKey bid)) = map forgetDone (tasks st)"
    and "length (tasks (toggleBlockDone st dateKey bid)) = length (tasks st)"
    and "\<forall>i<length (tasks st). id_t (tasks st ! i) \<noteq> taskId (getScheduleForDate st dateKey ! idx)
           \<longrightarrow> tasks (toggleBlockDone st dateKey bid) ! i = tasks st ! i"
proof -
  let ?tid = "taskId (getScheduleForDate st dateKey ! idx)"
  let ?v = "taskDoneAfterToggle (getScheduleForDate st dateKey) idx"
  have upd: "map forgetDone (ts[ti := (ts ! ti)\<lparr>done_t := v\<rparr>]) = map forgetDone ts"
    for ts :: "task list" and ti v
  proof (cases "ti < length ts")
    case True
    have "forgetDone ((ts ! ti)\<lparr>done_t := v\<rparr>) = forgetDone (ts ! ti)"
      by (simp add: forgetDone_def)
    then show ?thesis using True by (simp add: map_update list_update_same_conv)
  next
    case False then show ?thesis by (simp add: list_update_beyond)
  qed
  show "map forgetDone (tasks (toggleBlockDone st dateKey bid)) = map forgetDone (tasks st)"
    unfolding toggle_tasks[OF found] by (simp add: upd split: option.splits)
  show "length (tasks (toggleBlockDone st dateKey bid)) = length (tasks st)"
    unfolding toggle_tasks[OF found] by (simp split: option.splits)
  show "\<forall>i<length (tasks st). id_t (tasks st ! i) \<noteq> ?tid
           \<longrightarrow> tasks (toggleBlockDone st dateKey bid) ! i = tasks st ! i"
  proof (intro allI impI)
    fix i assume i: "i < length (tasks st)" "id_t (tasks st ! i) \<noteq> ?tid"
    show "tasks (toggleBlockDone st dateKey bid) ! i = tasks st ! i"
    proof (cases "findIndex (\<lambda>t. id_t t = ?tid) (tasks st)")
      case None
      then show ?thesis unfolding toggle_tasks[OF found] by simp
    next
      case (Some ti)
      from findIndex_Some[OF Some] have "id_t (tasks st ! ti) = ?tid" by simp
      with i(2) have "ti \<noteq> i" by auto
      then show ?thesis unfolding toggle_tasks[OF found] using Some by simp
    qed
  qed
qed

lemma remove_toggle_absent:
  assumes "findIndex (\<lambda>x. id_b x = bid) (getScheduleForDate st dateKey) = None"
  shows "removeBlock st dateKey bid = st" and "toggleBlockDone st dateKey bid = st"
  using assms by (simp_all add: removeBlock_def toggleBlockDone_def Let_def)

text \<open>
  C9 (as amended): for every block identifier present in the day's schedule, the remove
  operation deletes the block with that identifier provided the block is not fixed (for
  a fixed block it leaves the state unchanged), and the completion toggle flips the block's
  done flag whatever its other properties. Removing changes nothing but the stored day:
  the settings, the tasks and the other days are untouched. The toggle stores the day with
  the one block flipped, leaves the settings and the other days untouched, and in the task
  list changes at most the done flag of the task that the block belongs to (none for the
  break or a block without task identifier, or when no task has that identifier): that
  flag becomes whether all blocks of the task in the day are done after the flip. The
  task list keeps its length, every task keeps all its other fields, and every task with
  another identifier is unchanged. There is no interval state to touch.
\<close>

theorem remove_and_toggle:
  assumes found: "findIndex (\<lambda>x. id_b x = bid) (getScheduleForDate st dateKey) = Some idx"
  shows "(\<not> fixed (getScheduleForDate st dateKey ! idx) \<longrightarrow>
            getScheduleForDate (removeBlock st dateKey bid) dateKey
              = filter (\<lambda>x. id_b x \<noteq> bid) (getScheduleForDate st dateKey))
         \<and> (fixed (getScheduleForDate st dateKey ! idx) \<longrightarrow> removeBlock st dateKey bid = st)
         \<and> getScheduleForDate (toggleBlockDone st dateKey bid) dateKey
              = (getScheduleForDate st dateKey)
                  [idx := (getScheduleForDate st dateKey ! idx)
                            \<lparr>done_b := \<not> done_b (getScheduleForDate st dateKey ! idx)\<rparr>]
         \<and> settings (removeBlock st dateKey bid) = settings st
         \<and> tasks (removeBlock st dateKey bid) = tasks st
         \<and> settings (toggleBlockDone st dateKey bid) = settings st
         \<and> (\<forall>d. d \<noteq> dateKey \<longrightarrow>
               scheduleByDate (removeBlock st dateKey bid) d = scheduleByDate st d
               \<and> scheduleByDate (toggleBlockDone st dateKey bid) d = scheduleByDate st d)
         \<and> scheduleByDate (toggleBlockDone st dateKey bid) dateKey
              = Some ((getScheduleForDate st dateKey)
                  [idx := (getScheduleForDate st dateKey ! idx)
                            \<lparr>done_b := \<not> done_b (getScheduleForDate st dateKey ! idx)\<rparr>])
         \<and> tasks (toggleBlockDone st dateKey bid)
              = (if taskId (getScheduleForDate st dateKey ! idx) \<noteq> []
                    \<and> taskId (getScheduleForDate st dateKey ! idx) \<noteq> ''lunch''
                 then (case findIndex (\<lambda>t. id_t t = taskId (getScheduleForDate st dateKey ! idx))
                              (tasks st) of
                         None \<Rightarrow> tasks st
                       | Some ti \<Rightarrow> (tasks st)[ti := (tasks st ! ti)
                            \<lparr>done_t := taskDoneAfterToggle (getScheduleForDate st dateKey) idx\<rparr>])
                 else tasks st)
         \<and> length (tasks (toggleBlockDone st dateKey bid)) = length (tasks st)
         \<and> map forgetDone (tasks (toggleBlockDone st dateKey bid)) = map forgetDone (tasks st)
         \<and> (\<forall>i<length (tasks st).
               id_t (tasks st ! i) \<noteq> taskId (getScheduleForDate st dateKey ! idx)
               \<longrightarrow> tasks (toggleBlockDone st dateKey bid) ! i = tasks st ! i)"
proof -
  let ?blocks = "getScheduleForDate st dateKey"
  let ?b = "(?blocks ! idx)\<lparr>done_b := \<not> done_b (?blocks ! idx)\<rparr>"
  have srt: "sorted (map startMin ?blocks)" by (rule sorted_getScheduleForDate)
  have idx: "idx < length ?blocks" using findIndex_Some[OF found] by simp
  have r1: "getScheduleForDate (removeBlock st dateKey bid) dateKey
              = filter (\<lambda>x. id_b x \<noteq> bid) ?blocks" if "\<not> fixed (?blocks ! idx)"
  proof -
    have "removeBlock st dateKey bid
            = st\<lparr>scheduleByDate := (scheduleByDate st)
                   (dateKey \<mapsto> filter (\<lambda>x. id_b x \<noteq> bid) ?blocks)\<rparr>"
      using found that by (simp add: removeBlock_def Let_def)
    then show ?thesis
      by (simp add: getScheduleForDate_update sorted_byStart_id[OF filter_sorted_starts[OF srt]])
  qed
  have r2: "removeBlock st dateKey bid = st" if "fixed (?blocks ! idx)"
    using found that by (simp add: removeBlock_def Let_def)
  have m: "map startMin (?blocks[idx := ?b]) = map startMin ?blocks"
    using idx by (simp add: map_update list_update_same_conv)
  have sched: "scheduleByDate (toggleBlockDone st dateKey bid)
                 = (scheduleByDate st)(dateKey \<mapsto> ?blocks[idx := ?b])"
    using found by (simp add: toggleBlockDone_def Let_def split: option.splits)
  have t1: "getScheduleForDate (toggleBlockDone st dateKey bid) dateKey = ?blocks[idx := ?b]"
    using srt by (simp add: getScheduleForDate_def[of "toggleBlockDone st dateKey bid"] sched
                       sorted_byStart_id m)
  have s1: "settings (removeBlock st dateKey bid) = settings st"
    "tasks (removeBlock st dateKey bid) = tasks st"
    by (simp_all add: removeBlock_def Let_def split: option.splits)
  have s2: "settings (toggleBlockDone st dateKey bid) = settings st"
    by (simp add: toggleBlockDone_def Let_def split: option.splits)
  have o: "scheduleByDate (removeBlock st dateKey bid) d = scheduleByDate st d
           \<and> scheduleByDate (toggleBlockDone st dateKey bid) d = scheduleByDate st d"
    if "d \<noteq> dateKey" for d
    using that by (simp add: sched) (simp add: removeBlock_def Let_def split: option.splits)
  have raw: "scheduleByDate (toggleBlockDone st dateKey bid) dateKey = Some (?blocks[idx := ?b])"
    by (simp add: sched)
  from r1 r2 t1 s1 s2 o
  have day: "(\<not> fixed (?blocks ! idx) \<longrightarrow>
            getScheduleForDate (removeBlock st dateKey bid) dateKey
              = filter (\<lambda>x. id_b x \<noteq> bid) ?blocks)
         \<and> (fixed (?blocks ! idx) \<longrightarrow> removeBlock st dateKey bid = st)
         \<and> getScheduleForDate (toggleBlockDone st dateKey bid) dateKey = ?blocks[idx := ?b]
         \<and> settings (removeBlock st dateKey bid) = settings st
         \<and> tasks (removeBlock st dateKey bid) = tasks st
         \<and> settings (toggleBlockDone st dateKey bid) = settings st
         \<and> (\<forall>d. d \<noteq> dateKey \<longrightarrow>
               scheduleByDate (removeBlock st dateKey bid) d = scheduleByDate st d
               \<and> scheduleByDate (toggleBlockDone st dateKey bid) d = scheduleByDate st d)"
    by blast
  note tk = toggle_tasks[OF found] toggle_tasks_frame[OF found]
  have new: "scheduleByDate (toggleBlockDone st dateKey bid) dateKey = Some (?blocks[idx := ?b])
         \<and> tasks (toggleBlockDone st dateKey bid)
              = (if taskId (?blocks ! idx) \<noteq> [] \<and> taskId (?blocks ! idx) \<noteq> ''lunch''
                 then (case findIndex (\<lambda>t. id_t t = taskId (?blocks ! idx)) (tasks st) of
                         None \<Rightarrow> tasks st
                       | Some ti \<Rightarrow> (tasks st)[ti := (tasks st ! ti)
                            \<lparr>done_t := taskDoneAfterToggle ?blocks idx\<rparr>])
                 else tasks st)
         \<and> length (tasks (toggleBlockDone st dateKey bid)) = length (tasks st)
         \<and> map forgetDone (tasks (toggleBlockDone st dateKey bid)) = map forgetDone (tasks st)
         \<and> (\<forall>i<length (tasks st).
               id_t (tasks st ! i) \<noteq> taskId (?blocks ! idx)
               \<longrightarrow> tasks (toggleBlockDone st dateKey bid) ! i = tasks st ! i)"
    by (rule conjI[OF raw conjI[OF tk(1) conjI[OF tk(3) conjI[OF tk(2) tk(4)]]]])
  from day new show ?thesis by blast
qed



theorem remove_and_toggle_witness:
  "findIndex (\<lambda>x. id_b x = ''x'') (getScheduleForDate exMoveSt ''2025-01-10'') = Some 0
   \<and> \<not> fixed (getScheduleForDate exMoveSt ''2025-01-10'' ! 0)
   \<and> getScheduleForDate (removeBlock exMoveSt ''2025-01-10'' ''x'') ''2025-01-10''
       = [exBlock ''y'' ''b'' 600 660 False, exBlock ''lunch'' ''lunch'' 720 780 True]
   \<and> getScheduleForDate (toggleBlockDone exMoveSt ''2025-01-10'' ''x'') ''2025-01-10''
       = [(exBlock ''x'' ''a'' 540 600 False)\<lparr>done_b := True\<rparr>, exBlock ''y'' ''b'' 600 660 False,
          exBlock ''lunch'' ''lunch'' 720 780 True]
   \<and> tasks (toggleBlockDone exMoveSt ''2025-01-10'' ''x'') = [exA\<lparr>done_t := True\<rparr>, exB]
   \<and> tasks (removeBlock exMoveSt ''2025-01-10'' ''x'') = [exA, exB]
   \<and> settings (toggleBlockDone exMoveSt ''2025-01-10'' ''x'') = exSettings"
proof -
  let ?d = "''2025-01-10''"
  have f: "findIndex (\<lambda>x. id_b x = ''x'') (getScheduleForDate exMoveSt ?d) = Some 0"
    by (simp add: exMove_blocks exDay_def exBlock_def)
  have n: "\<not> fixed (getScheduleForDate exMoveSt ?d ! 0)"
    by (simp add: exMove_blocks exDay_def exBlock_def)
  note r = remove_and_toggle [OF f]
  from r n
  have a: "getScheduleForDate (removeBlock exMoveSt ?d ''x'') ?d
          = filter (\<lambda>x. id_b x \<noteq> ''x'') (getScheduleForDate exMoveSt ?d)"
    "getScheduleForDate (toggleBlockDone exMoveSt ?d ''x'') ?d
          = (getScheduleForDate exMoveSt ?d)
              [0 := (getScheduleForDate exMoveSt ?d ! 0)
                      \<lparr>done_b := \<not> done_b (getScheduleForDate exMoveSt ?d ! 0)\<rparr>]"
    by blast+
  from r have t: "tasks (toggleBlockDone exMoveSt ?d ''x'')
      = (if taskId (getScheduleForDate exMoveSt ?d ! 0) \<noteq> []
            \<and> taskId (getScheduleForDate exMoveSt ?d ! 0) \<noteq> ''lunch''
         then (case findIndex (\<lambda>t. id_t t = taskId (getScheduleForDate exMoveSt ?d ! 0))
                      (tasks exMoveSt) of
                 None \<Rightarrow> tasks exMoveSt
               | Some ti \<Rightarrow> (tasks exMoveSt)[ti := (tasks exMoveSt ! ti)
                    \<lparr>done_t := taskDoneAfterToggle (getScheduleForDate exMoveSt ?d) 0\<rparr>])
         else tasks exMoveSt)"
    by blast
  have tk: "tasks exMoveSt = [exA, exB]" by (simp add: exMoveSt_def)
  have t': "tasks (toggleBlockDone exMoveSt ?d ''x'') = [exA\<lparr>done_t := True\<rparr>, exB]"
    unfolding t exMove_blocks tk
    by (simp add: exDay_def exBlock_def exA_def exB_def exTask_def taskDoneAfterToggle_def)
  from r have s: "tasks (removeBlock exMoveSt ?d ''x'') = tasks exMoveSt"
    "settings (toggleBlockDone exMoveSt ?d ''x'') = settings exMoveSt"
    by blast+
  have a': "getScheduleForDate (removeBlock exMoveSt ?d ''x'') ?d
       = [exBlock ''y'' ''b'' 600 660 False, exBlock ''lunch'' ''lunch'' 720 780 True]"
    "getScheduleForDate (toggleBlockDone exMoveSt ?d ''x'') ?d
       = [(exBlock ''x'' ''a'' 540 600 False)\<lparr>done_b := True\<rparr>, exBlock ''y'' ''b'' 600 660 False,
          exBlock ''lunch'' ''lunch'' 720 780 True]"
    unfolding a by (simp_all add: exMove_blocks exDay_def exBlock_def)
  have s': "tasks (removeBlock exMoveSt ?d ''x'') = [exA, exB]"
    "settings (toggleBlockDone exMoveSt ?d ''x'') = exSettings"
    unfolding s tk by (simp_all add: exMoveSt_def)
  from f n a' t' s' show ?thesis by blast
qed

text \<open>
  The claim as stated fails for a fixed block: the break is present in the day, and
  removing it leaves it in place.
\<close>

theorem remove_and_toggle_counterexample:
  "findIndex (\<lambda>x. id_b x = ''lunch'') (getScheduleForDate exMoveSt ''2025-01-10'') = Some 2
   \<and> removeBlock exMoveSt ''2025-01-10'' ''lunch'' = exMoveSt
   \<and> list_ex (\<lambda>x. id_b x = ''lunch'')
        (getScheduleForDate (removeBlock exMoveSt ''2025-01-10'' ''lunch'') ''2025-01-10'')"
proof -
  have f: "findIndex (\<lambda>x. id_b x = ''lunch'') (getScheduleForDate exMoveSt ''2025-01-10'') = Some 2"
    by (simp add: exMove_blocks exDay_def exBlock_def)
  have r: "removeBlock exMoveSt ''2025-01-10'' ''lunch'' = exMoveSt"
    by (simp add: removeBlock_def Let_def exMove_blocks exDay_def exBlock_def)
  have "list_ex (\<lambda>x. id_b x = ''lunch'') (getScheduleForDate exMoveSt ''2025-01-10'')"
    by (simp add: exMove_blocks exDay_def exBlock_def)
  with f r show ?thesis by simp
qed
end
